theory Spec2Isabelle
  imports Main "HOL-Library.Word" "HOL-Library.Multiset" "HOL-Library.Signed_Division"
begin

text \<open>
  The repository holds three classroom programs, each one function over a
  \<^verbatim>\<open>std::vector<int>\<close>: \<^verbatim>\<open>bubbleSort\<close>, \<^verbatim>\<open>heapSort\<close> (with \<^verbatim>\<open>heapify\<close>) and
  \<^verbatim>\<open>fibonacciSearch\<close>. Each is embedded below as it is written, loop by loop, and the
  statements of the specification about it are then proved or refuted.
\<close>

section \<open>Common model of the C++ data\<close>

text \<open>
  A \<^verbatim>\<open>std::vector<int>\<close> is a list of integers. The three programs only compare and
  move the element values, so these are kept as mathematical integers. Reading or writing
  \<^verbatim>\<open>v[k]\<close> outside the vector is undefined behaviour in C++: the model stops there
  with the error \<open>OutOfBounds\<close>. An \<^verbatim>\<open>int\<close> has 32 bits. In \<^verbatim>\<open>heapify\<close> a child index
  that does not fit them ends the run with the error \<open>Overflow\<close>. In
  \<^verbatim>\<open>fibonacciSearch\<close> the compiled program runs on for several rounds after a sum has
  left the range, so its \<^verbatim>\<open>int\<close> arithmetic is modelled as the machine performs it,
  reduced modulo \<open>2\<^sup>3\<^sup>2\<close> into the signed range (\<open>wrap32\<close>), and the model follows such
  runs to their end.
\<close>

datatype error = OutOfBounds | Overflow

text \<open>\<^verbatim>\<open>size_t\<close> is an unsigned 64-bit integer; its arithmetic wraps around.\<close>

type_synonym size_t = "64 word"

definition vsize :: "int list \<Rightarrow> size_t" where
  "vsize v = of_nat (length v)"

text \<open>\<^verbatim>\<open>std::swap(v[a], v[b])\<close> on positions inside the vector.\<close>

definition swap :: "int list \<Rightarrow> nat \<Rightarrow> nat \<Rightarrow> int list" where
  "swap v a b = v[a := v ! b, b := v ! a]"

text \<open>The range of a 32-bit \<^verbatim>\<open>int\<close>.\<close>

definition INT_MAX :: int where
  "INT_MAX = 2147483647"

definition INT_MIN :: int where
  "INT_MIN = - 2147483648"

definition int_ok :: "int \<Rightarrow> bool" where
  "int_ok x \<longleftrightarrow> INT_MIN \<le> x \<and> x \<le> INT_MAX"

text \<open>The result of an \<^verbatim>\<open>int\<close> operation, reduced into the 32-bit signed range.\<close>

definition wrap32 :: "int \<Rightarrow> int" where
  "wrap32 x = (x + 2 ^ 31) mod 2 ^ 32 - 2 ^ 31"

text \<open>
  \<^verbatim>\<open>int n = arr.size()\<close>: the conversion of a size to \<^verbatim>\<open>int\<close> keeps the value when
  it fits and otherwise reduces it modulo \<open>2\<^sup>3\<^sup>2\<close> into the signed range.
\<close>

definition to_int :: "nat \<Rightarrow> int" where
  "to_int s = (int s + 2 ^ 31) mod 2 ^ 32 - 2 ^ 31"

text \<open>An \<^verbatim>\<open>int\<close> index is inside the vector.\<close>

definition in_bounds :: "int list \<Rightarrow> int \<Rightarrow> bool" where
  "in_bounds arr i \<longleftrightarrow> 0 \<le> i \<and> i < int (length arr)"

lemma length_swap [simp]: "length (swap v a b) = length v"
  by (simp add: swap_def)

lemma vsize_swap [simp]: "vsize (swap v a b) = vsize v"
  by (simp add: vsize_def)

lemma mset_swap_list: "a < length v \<Longrightarrow> b < length v \<Longrightarrow> mset (swap v a b) = mset v"
  by (simp add: swap_def mset_swap)

lemma to_int_small: "s \<le> 2147483647 \<Longrightarrow> to_int s = int s"
  by (simp add: to_int_def)

lemma wrap32_id: "int_ok x \<Longrightarrow> wrap32 x = x"
  by (simp add: wrap32_def int_ok_def INT_MIN_def INT_MAX_def)

section \<open>Bubble sort: the program\<close>

text \<open>
  The inner loop of \<^verbatim>\<open>bubbleSort\<close>,
  \<^verbatim>\<open>for (size_t j = 0; j < beads.size() - i - 1; ++j)\<close>, with the flag
  \<^verbatim>\<open>swapped\<close> passed along. The bound is recomputed in \<^verbatim>\<open>size_t\<close> arithmetic at
  every test, as in the source.
\<close>

lemma unat_succ_less: "(j :: size_t) < b \<Longrightarrow> unat (j + 1) = Suc (unat j)"
proof -
  assume "j < b"
  then have "unat j < unat b" by (simp add: word_less_nat_alt)
  moreover have "unat b < 2 ^ 64" using unsigned_less [of b] by simp
  ultimately have "unat j + 1 < 2 ^ 64" by simp
  then show ?thesis by (simp add: unat_word_ariths)
qed

function bubble_inner ::
  "int list \<Rightarrow> size_t \<Rightarrow> size_t \<Rightarrow> bool \<Rightarrow> error + (int list \<times> bool)" where
  "bubble_inner beads i j swapped =
     (if j < vsize beads - i - 1 then
        if \<not> (unat j < length beads \<and> unat (j + 1) < length beads) then Inl OutOfBounds
        else if beads ! unat j > beads ! unat (j + 1)
          then bubble_inner (swap beads (unat j) (unat (j + 1))) i (j + 1) True
          else bubble_inner beads i (j + 1) swapped
      else Inr (beads, swapped))"
  by pat_completeness auto
termination
  apply (relation "measure (\<lambda>(beads, i, j, swapped). unat (vsize beads - i - 1) - unat j)")
  apply (auto simp: unat_succ_less word_less_nat_alt)
  done

declare bubble_inner.simps [simp del]

lemma bubble_inner_length:
  "bubble_inner beads i j swapped = Inr (beads', swapped') \<Longrightarrow> length beads' = length beads"
  by (induction beads i j swapped rule: bubble_inner.induct)
     (subst (asm) bubble_inner.simps, auto split: if_splits)

text \<open>
  The outer loop, \<^verbatim>\<open>for (size_t i = 0; i < beads.size() - 1; ++i)\<close>, which stops
  early after a pass without a swap.
\<close>

function bubble_outer :: "int list \<Rightarrow> size_t \<Rightarrow> error + int list" where
  "bubble_outer beads i =
     (if i < vsize beads - 1 then
        case bubble_inner beads i 0 False of
          Inl e \<Rightarrow> Inl e
        | Inr (beads', swapped) \<Rightarrow>
            if \<not> swapped then Inr beads' else bubble_outer beads' (i + 1)
      else Inr beads)"
  by pat_completeness auto
termination
  apply (relation "measure (\<lambda>(beads, i). unat (vsize beads - 1) - unat i)")
   apply (auto simp: unat_succ_less word_less_nat_alt vsize_def dest!: bubble_inner_length)
  done

declare bubble_outer.simps [simp del]

definition bubbleSort :: "int list \<Rightarrow> error + int list" where
  "bubbleSort beads = bubble_outer beads 0"

section \<open>Heap sort: the program\<close>

text \<open>
  \<^verbatim>\<open>heapify(arr, n, i)\<close>: sift the value at \<open>i\<close> down inside the first \<open>n\<close> positions.
  The three \<^verbatim>\<open>int\<close> products and sums for the children are computed first; each
  condition reads \<^verbatim>\<open>arr\<close> only after its bound test, as \<^verbatim>\<open>&&\<close> does.
\<close>

function heapify :: "int list \<Rightarrow> int \<Rightarrow> int \<Rightarrow> error + int list" where
  "heapify arr n i =
     (if \<not> int_ok (2 * i) \<or> \<not> int_ok (2 * i + 1) \<or> \<not> int_ok (2 * i + 2) then Inl Overflow
      else
        let largest = i; left = 2 * i + 1; right = 2 * i + 2 in
        if left < n \<and> \<not> (in_bounds arr left \<and> in_bounds arr largest) then Inl OutOfBounds
        else
          let largest = (if left < n \<and> arr ! nat left > arr ! nat largest then left else largest) in
          if right < n \<and> \<not> (in_bounds arr right \<and> in_bounds arr largest) then Inl OutOfBounds
          else
            let largest = (if right < n \<and> arr ! nat right > arr ! nat largest then right else largest) in
            if largest \<noteq> i then
              if \<not> (in_bounds arr i \<and> in_bounds arr largest) then Inl OutOfBounds
              else heapify (swap arr (nat i) (nat largest)) n largest
            else Inr arr)"
  by pat_completeness auto
termination
  apply (relation "measure (\<lambda>(arr, n, i). nat (n - i))")
   apply (auto simp: Let_def in_bounds_def split: if_splits)
  done

declare heapify.simps [simp del]

text \<open>The first loop of \<^verbatim>\<open>heapSort\<close>: \<^verbatim>\<open>for (int i = n / 2 - 1; i >= 0; i--)\<close>.\<close>

function heapSort_build :: "int list \<Rightarrow> int \<Rightarrow> int \<Rightarrow> error + int list" where
  "heapSort_build arr n i =
     (if i \<ge> 0 then
        case heapify arr n i of
          Inl e \<Rightarrow> Inl e
        | Inr arr' \<Rightarrow> heapSort_build arr' n (i - 1)
      else Inr arr)"
  by pat_completeness auto
termination
  by (relation "measure (\<lambda>(arr, n, i). nat (i + 1))") auto

declare heapSort_build.simps [simp del]

text \<open>The second loop: \<^verbatim>\<open>for (int i = n - 1; i > 0; i--)\<close>.\<close>

function heapSort_extract :: "int list \<Rightarrow> int \<Rightarrow> error + int list" where
  "heapSort_extract arr i =
     (if i > 0 then
        if \<not> (in_bounds arr 0 \<and> in_bounds arr i) then Inl OutOfBounds
        else
          case heapify (swap arr 0 (nat i)) i 0 of
            Inl e \<Rightarrow> Inl e
          | Inr arr' \<Rightarrow> heapSort_extract arr' (i - 1)
      else Inr arr)"
  by pat_completeness auto
termination
  by (relation "measure (\<lambda>(arr, i). nat i)") auto

declare heapSort_extract.simps [simp del]

text \<open>
  \<^verbatim>\<open>heapSort\<close>. The division \<^verbatim>\<open>n / 2\<close> of C++ truncates towards zero
  (\<open>sdiv\<close>); \<^verbatim>\<open>n - 1\<close> overflows when \<open>n\<close> is \<open>INT_MIN\<close>.
\<close>

definition heapSort :: "int list \<Rightarrow> error + int list" where
  "heapSort arr =
     (let n = to_int (length arr) in
      case heapSort_build arr n (n sdiv 2 - 1) of
        Inl e \<Rightarrow> Inl e
      | Inr arr' \<Rightarrow>
          if \<not> int_ok (n - 1) then Inl Overflow else heapSort_extract arr' (n - 1))"

section \<open>Fibonacci search: the program\<close>

text \<open>
  The first loop of \<^verbatim>\<open>fibonacciSearch\<close>, \<^verbatim>\<open>while (fibM < n)\<close>, on the three
  \<^verbatim>\<open>int\<close> variables. Nothing in its text bounds the number of rounds, so it is a partial
  function: \<open>None\<close> stands for a run that never leaves the loop. The loop reads no
  element; its result is passed on as \<open>Inr\<close>, in the form of the results of the code
  after it.
\<close>

partial_function (option) fib_gen ::
  "int \<Rightarrow> int \<Rightarrow> int \<Rightarrow> int \<Rightarrow> (error + int \<times> int \<times> int) option" where
  "fib_gen n fibMMm2 fibMMm1 fibM =
     (if fibM < n then
        (let fibMMm2' = fibMMm1; fibMMm1' = fibM in
         fib_gen n fibMMm2' fibMMm1' (wrap32 (fibMMm2' + fibMMm1')))
      else Some (Inr (fibMMm2, fibMMm1, fibM)))"

declare fib_gen.simps [code]

text \<open>
  The code after the second loop:
  \<^verbatim>\<open>if (fibMMm1 && offset + 1 < n && arr[offset + 1] == target) return offset + 1; return -1;\<close>
  The element is read only when the two tests before it have succeeded.
\<close>

definition last_check :: "int list \<Rightarrow> int \<Rightarrow> int \<Rightarrow> int \<Rightarrow> int \<Rightarrow> error + int" where
  "last_check arr target n fibMMm1 offset =
     (if fibMMm1 \<noteq> 0 then
        if wrap32 (offset + 1) < n then
          if \<not> in_bounds arr (wrap32 (offset + 1)) then Inl OutOfBounds
          else if arr ! nat (wrap32 (offset + 1)) = target then Inr (wrap32 (offset + 1))
          else Inr (- 1)
        else Inr (- 1)
      else Inr (- 1))"

text \<open>
  The second loop, \<^verbatim>\<open>while (fibM > 1)\<close>, followed by the code after it. A
  \<^verbatim>\<open>return i\<close> inside the loop ends the function with \<open>Inr i\<close>.
\<close>

partial_function (option) fib_loop ::
  "int list \<Rightarrow> int \<Rightarrow> int \<Rightarrow> int \<Rightarrow> int \<Rightarrow> int \<Rightarrow> int \<Rightarrow> (error + int) option" where
  "fib_loop arr target n fibMMm2 fibMMm1 fibM offset =
     (if fibM > 1 then
        let i = min (wrap32 (offset + fibMMm2)) (wrap32 (n - 1)) in
        if \<not> in_bounds arr i then Some (Inl OutOfBounds)
        else if arr ! nat i < target then
          (let fibM' = fibMMm1; fibMMm1' = fibMMm2 in
           fib_loop arr target n (wrap32 (fibM' - fibMMm1')) fibMMm1' fibM' i)
        else if arr ! nat i > target then
          (let fibM' = fibMMm2; fibMMm1' = wrap32 (fibMMm1 - fibMMm2) in
           fib_loop arr target n (wrap32 (fibM' - fibMMm1')) fibMMm1' fibM' offset)
        else Some (Inr i)
      else Some (last_check arr target n fibMMm1 offset))"

declare fib_loop.simps [code]

text \<open>\<^verbatim>\<open>fibonacciSearch\<close>: the initialisation, the two loops and the final check.\<close>

definition fibonacciSearch :: "int list \<Rightarrow> int \<Rightarrow> (error + int) option" where
  "fibonacciSearch arr target =
     (let n = to_int (length arr);
          fibMMm2 = 0;
          fibMMm1 = 1;
          fibM = wrap32 (fibMMm2 + fibMMm1)
      in case fib_gen n fibMMm2 fibMMm1 fibM of
           None \<Rightarrow> None
         | Some (Inl e) \<Rightarrow> Some (Inl e)
         | Some (Inr (fibMMm2, fibMMm1, fibM)) \<Rightarrow>
             fib_loop arr target n fibMMm2 fibMMm1 fibM (- 1))"

section \<open>Notions used in the statements and in the proofs\<close>

text \<open>
  The invariant of both sorts: from position \<open>m\<close> on, every element is at least as large
  as every element before it.
\<close>

definition suffix_sorted :: "int list \<Rightarrow> nat \<Rightarrow> bool" where
  "suffix_sorted b m \<longleftrightarrow> (\<forall>k l. k \<le> l \<and> m \<le> l \<and> l < length b \<longrightarrow> b ! k \<le> b ! l)"

text \<open>The max-heap condition at node \<open>j\<close> of the first \<open>n\<close> positions.\<close>

definition heap_at :: "int list \<Rightarrow> int \<Rightarrow> int \<Rightarrow> bool" where
  "heap_at arr n j \<longleftrightarrow>
     (2 * j + 1 < n \<longrightarrow> arr ! nat (2 * j + 1) \<le> arr ! nat j) \<and>
     (2 * j + 2 < n \<longrightarrow> arr ! nat (2 * j + 2) \<le> arr ! nat j)"

text \<open>The index \<^verbatim>\<open>largest\<close> that \<^verbatim>\<open>heapify\<close> computes before its last test.\<close>

definition largest_of :: "int list \<Rightarrow> int \<Rightarrow> int \<Rightarrow> int" where
  "largest_of arr n i =
     (let l1 = (if 2 * i + 1 < n \<and> arr ! nat (2 * i + 1) > arr ! nat i then 2 * i + 1 else i)
      in if 2 * i + 2 < n \<and> arr ! nat (2 * i + 2) > arr ! nat l1 then 2 * i + 2 else l1)"

text \<open>The Fibonacci numbers \<open>F(0) = 0\<close>, \<open>F(1) = 1\<close>, \<open>F(k + 2) = F(k) + F(k + 1)\<close>.\<close>

fun fib :: "nat \<Rightarrow> int" where
  "fib 0 = 0"
| "fib (Suc 0) = 1"
| "fib (Suc (Suc k)) = fib k + fib (Suc k)"

declare fib.simps [simp del]

text \<open>The pair \<open>(F(k), F(k + 1))\<close>, for computing a Fibonacci number in \<open>k\<close> steps.\<close>

primrec fib_pair :: "nat \<Rightarrow> int \<times> int" where
  "fib_pair 0 = (0, 1)"
| "fib_pair (Suc k) = (case fib_pair k of (a, b) \<Rightarrow> (b, a + b))"

section \<open>Facts about lists shared by the two sorting proofs\<close>

lemma mset_take_of_drop:
  assumes "mset b' = mset b" and "drop m b' = drop m b"
  shows "mset (take m b') = mset (take m b)"
proof -
  have "mset (take m b') + mset (drop m b') = mset (take m b) + mset (drop m b)"
    using assms(1) by (simp flip: mset_append)
  then show ?thesis using assms(2) by simp
qed

lemma nth_of_drop_eq:
  assumes "drop m b' = drop m b" and "m \<le> l" and "l < length b" and "length b' = length b"
  shows "b' ! l = b ! l"
proof -
  have "b' ! l = drop m b' ! (l - m)" using assms(2,3,4) by simp
  also have "\<dots> = drop m b ! (l - m)" using assms(1) by simp
  also have "\<dots> = b ! l" using assms(2,3) by simp
  finally show ?thesis .
qed

lemma prefix_value_source:
  assumes "length b' = length b" and "mset b' = mset b" and "drop m b' = drop m b"
    and "k < m" and "k < length b"
  shows "\<exists>k0 < m. k0 < length b \<and> b ! k0 = b' ! k"
proof -
  have "b' ! k \<in> set (take m b')"
    using assms by (auto simp: in_set_conv_nth intro!: exI [of _ k])
  also have "set (take m b') = set (take m b)"
    using mset_take_of_drop [OF assms(2,3)] by (rule mset_eq_setD)
  finally obtain k0 where "k0 < length (take m b)" "take m b ! k0 = b' ! k"
    by (auto simp: in_set_conv_nth)
  then show ?thesis by (intro exI [of _ k0]) simp
qed

lemma suffix_sorted_step:
  assumes len: "length b' = length b" and ms: "mset b' = mset b"
    and dr: "drop (Suc B) b' = drop (Suc B) b" and B: "B < length b"
    and mx: "\<forall>k \<le> B. b' ! k \<le> b' ! B" and R: "suffix_sorted b (Suc B)"
  shows "suffix_sorted b' B"
  unfolding suffix_sorted_def
proof (intro allI impI)
  fix k l
  assume a: "k \<le> l \<and> B \<le> l \<and> l < length b'"
  show "b' ! k \<le> b' ! l"
  proof (cases "l = B")
    case True
    then show ?thesis using mx a by simp
  next
    case False
    then have ml: "Suc B \<le> l" and ll: "l < length b" using a len by auto
    have bl: "b' ! l = b ! l"
      using nth_of_drop_eq [OF dr ml ll len] .
    show ?thesis
    proof (cases "Suc B \<le> k")
      case True
      have "b' ! k = b ! k"
        using nth_of_drop_eq [OF dr True _ len] a ll by simp
      then show ?thesis using bl R a ml ll by (simp add: suffix_sorted_def)
    next
      case False
      then have "k < Suc B" "k < length b" using B by auto
      from prefix_value_source [OF len ms dr this]
      obtain k0 where "k0 < Suc B" "b ! k0 = b' ! k" by auto
      moreover have "b ! k0 \<le> b ! l"
        using R \<open>k0 < Suc B\<close> ml ll by (simp add: suffix_sorted_def)
      ultimately show ?thesis using bl by simp
    qed
  qed
qed

lemma suffix_sorted_sorted:
  assumes "suffix_sorted b m" and "\<forall>k. Suc k < m \<longrightarrow> b ! k \<le> b ! Suc k"
  shows "sorted b"
  unfolding sorted_iff_nth_Suc
proof (intro allI impI)
  fix k
  assume k: "Suc k < length b"
  show "b ! k \<le> b ! Suc k"
  proof (cases "Suc k < m")
    case True
    then show ?thesis using assms(2) by simp
  next
    case False
    then show ?thesis using assms(1) k by (simp add: suffix_sorted_def)
  qed
qed

section \<open>Bubble sort: correctness of the loops\<close>

lemma bound_unat:
  "length b < 2 ^ 64 \<Longrightarrow> unat i < length b \<Longrightarrow>
   unat (vsize b - i - 1) = length b - unat i - 1"
proof -
  assume a: "length b < 2 ^ 64" "unat i < length b"
  have n: "unat (vsize b) = length b"
    using a(1) by (simp add: vsize_def unat_of_nat)
  have "i \<le> vsize b" using a(2) n by (simp add: word_le_nat_alt)
  then have 1: "unat (vsize b - i) = length b - unat i"
    using n by (simp add: unat_sub)
  have "1 \<le> vsize b - i" using 1 a(2) by (simp add: word_le_nat_alt)
  then show ?thesis using 1 by (simp add: unat_sub)
qed

lemma bubble_inner_spec:
  assumes "length b < 2 ^ 64" and "unat i < length b"
    and "unat j \<le> length b - unat i - 1"
    and "\<forall>k < unat j. b ! k \<le> b ! unat j"
  shows "\<exists>b' s'. bubble_inner b i j s = Inr (b', s') \<and> length b' = length b \<and> mset b' = mset b
          \<and> drop (length b - unat i) b' = drop (length b - unat i) b
          \<and> (\<forall>k \<le> length b - unat i - 1. b' ! k \<le> b' ! (length b - unat i - 1))
          \<and> (\<not> s' \<longrightarrow> \<not> s \<and> b' = b \<and>
                (\<forall>k. unat j \<le> k \<and> k < length b - unat i - 1 \<longrightarrow> b ! k \<le> b ! Suc k))"
  using assms
proof (induction b i j s rule: bubble_inner.induct)
  case (1 beads i j swapped)
  let ?B = "length beads - unat i - 1"
  have B: "unat (vsize beads - i - 1) = ?B"
    using "1.prems" by (simp add: bound_unat)
  show ?case
  proof (cases "j < vsize beads - i - 1")
    case False
    then have "unat j = ?B" using B "1.prems"(3) by (simp add: word_less_nat_alt)
    then show ?thesis using False "1.prems"(4)
      by (subst bubble_inner.simps) (auto simp: le_less)
  next
    case True
    then have jB: "unat j < ?B" using B by (simp add: word_less_nat_alt)
    have sj: "unat (j + 1) = Suc (unat j)" using True by (rule unat_succ_less)
    have inb: "unat j < length beads \<and> unat (j + 1) < length beads"
      using jB sj by linarith
    show ?thesis
    proof (cases "beads ! unat j > beads ! unat (j + 1)")
      case sw: True
      let ?b2 = "swap beads (unat j) (unat (j + 1))"
      have pre: "\<forall>k < unat (j + 1). ?b2 ! k \<le> ?b2 ! unat (j + 1)"
        using sw inb "1.prems"(4) sj by (auto simp: swap_def nth_list_update less_Suc_eq)
      have "\<exists>b' s'. bubble_inner ?b2 i (j + 1) True = Inr (b', s') \<and> length b' = length ?b2 \<and> mset b' = mset ?b2
          \<and> drop (length ?b2 - unat i) b' = drop (length ?b2 - unat i) ?b2
          \<and> (\<forall>k \<le> length ?b2 - unat i - 1. b' ! k \<le> b' ! (length ?b2 - unat i - 1))
          \<and> (\<not> s' \<longrightarrow> \<not> True \<and> b' = ?b2 \<and>
                (\<forall>k. unat (j + 1) \<le> k \<and> k < length ?b2 - unat i - 1 \<longrightarrow> ?b2 ! k \<le> ?b2 ! Suc k))"
        using "1.IH"(1) [OF True _ sw] inb "1.prems"(1,2) jB sj pre by simp
      then obtain b' s' where r: "bubble_inner ?b2 i (j + 1) True = Inr (b', s')"
         "length b' = length beads" "mset b' = mset ?b2"
         "drop (length beads - unat i) b' = drop (length beads - unat i) ?b2"
         "\<forall>k \<le> ?B. b' ! k \<le> b' ! ?B" "s'"
        by auto
      have d: "drop (length beads - unat i) ?b2 = drop (length beads - unat i) beads"
        using jB sj by (simp add: swap_def)
      have m: "mset ?b2 = mset beads" using inb by (simp add: mset_swap_list)
      have "bubble_inner beads i j swapped = Inr (b', s')"
        using True inb sw r(1) by (subst bubble_inner.simps) simp
      then show ?thesis using r d m by auto
    next
      case ns: False
      have pre: "\<forall>k < unat (j + 1). beads ! k \<le> beads ! unat (j + 1)"
        using ns "1.prems"(4) sj by (auto simp: less_Suc_eq) 
      have "\<exists>b' s'. bubble_inner beads i (j + 1) swapped = Inr (b', s') \<and> length b' = length beads \<and> mset b' = mset beads
          \<and> drop (length beads - unat i) b' = drop (length beads - unat i) beads
          \<and> (\<forall>k \<le> ?B. b' ! k \<le> b' ! ?B)
          \<and> (\<not> s' \<longrightarrow> \<not> swapped \<and> b' = beads \<and>
                (\<forall>k. unat (j + 1) \<le> k \<and> k < ?B \<longrightarrow> beads ! k \<le> beads ! Suc k))"
        using "1.IH"(2) [OF True _ ns] inb "1.prems"(1,2) jB sj pre by simp
      then obtain b' s' where r: "bubble_inner beads i (j + 1) swapped = Inr (b', s')"
         "length b' = length beads" "mset b' = mset beads"
         "drop (length beads - unat i) b' = drop (length beads - unat i) beads"
         "\<forall>k \<le> ?B. b' ! k \<le> b' ! ?B" 
         "\<not> s' \<longrightarrow> \<not> swapped \<and> b' = beads \<and>
                (\<forall>k. unat (j + 1) \<le> k \<and> k < ?B \<longrightarrow> beads ! k \<le> beads ! Suc k)"
        by auto
      have step: "beads ! unat j \<le> beads ! Suc (unat j)" using ns sj by simp
      have adj: "\<not> s' \<longrightarrow> (\<forall>k. unat j \<le> k \<and> k < ?B \<longrightarrow> beads ! k \<le> beads ! Suc k)"
      proof (intro impI allI)
        fix k
        assume ns': "\<not> s'" and k: "unat j \<le> k \<and> k < ?B"
        show "beads ! k \<le> beads ! Suc k"
        proof (cases "k = unat j")
          case True
          then show ?thesis using step by simp
        next
          case False
          then have "unat (j + 1) \<le> k" using k sj by simp
          then show ?thesis using r(6) ns' k by blast
        qed
      qed
      have "bubble_inner beads i j swapped = Inr (b', s')"
        using True inb ns r(1) by (subst bubble_inner.simps) simp
      then show ?thesis using r adj by auto
    qed
  qed
qed

lemma bubble_outer_spec:
  assumes "length b < 2 ^ 64" and "unat i < length b"
    and "suffix_sorted b (length b - unat i)"
  shows "\<exists>b'. bubble_outer b i = Inr b' \<and> mset b' = mset b \<and> sorted b'"
  using assms
proof (induction b i rule: bubble_outer.induct)
  case (1 beads i)
  let ?n = "length beads"
  let ?B = "?n - unat i - 1"
  have SB: "Suc ?B = ?n - unat i" using "1.prems"(2) by simp
  have vs: "unat (vsize beads - 1) = ?n - 1"
  proof -
    have "0 < length beads" using "1.prems"(2) by (cases beads) auto
    then show ?thesis using bound_unat [of beads 0] "1.prems"(1) by simp
  qed
  show ?case
  proof (cases "i < vsize beads - 1")
    case False
    then have i: "unat i = ?n - 1" using vs "1.prems"(2) by (simp add: word_less_nat_alt)
    have "sorted beads"
      using "1.prems"(3) i by (intro suffix_sorted_sorted [of beads "?n - unat i"]) auto
    then show ?thesis using False by (subst bubble_outer.simps) simp
  next
    case True
    then have i: "unat i < ?n - 1" using vs by (simp add: word_less_nat_alt)
    have si: "unat (i + 1) = Suc (unat i)" using True by (rule unat_succ_less)
    obtain b' s' where r: "bubble_inner beads i 0 False = Inr (b', s')"
      "length b' = ?n" "mset b' = mset beads"
      "drop (?n - unat i) b' = drop (?n - unat i) beads"
      "\<forall>k \<le> ?B. b' ! k \<le> b' ! ?B"
      "\<not> s' \<longrightarrow> b' = beads \<and> (\<forall>k. k < ?B \<longrightarrow> beads ! k \<le> beads ! Suc k)"
      using bubble_inner_spec [of beads i 0 False] "1.prems"(1,2) by auto
    show ?thesis
    proof (cases s')
      case False
      have "sorted beads"
        using "1.prems"(3) r(6) False SB
        by (intro suffix_sorted_sorted [of beads "?n - unat i"]) auto
      moreover have "bubble_outer beads i = Inr beads"
        using True r(1,6) False by (subst bubble_outer.simps) simp
      ultimately show ?thesis by simp
    next
      case sw: True
      have "suffix_sorted b' ?B"
        using r(2,3,4,5) "1.prems"(2,3) SB
        by (intro suffix_sorted_step [of b' beads ?B]) auto
      moreover have "length b' - unat (i + 1) = ?B" using si r(2) by simp
      ultimately have R': "suffix_sorted b' (length b' - unat (i + 1))" by simp
      have "\<exists>b''. bubble_outer b' (i + 1) = Inr b'' \<and> mset b'' = mset b' \<and> sorted b''"
        using "1.IH" [OF True r(1) refl _ _ _ R'] sw r(2) "1.prems"(1) i si by simp
      then obtain b'' where "bubble_outer b' (i + 1) = Inr b''" "mset b'' = mset b'" "sorted b''"
        by auto
      moreover have "bubble_outer beads i = bubble_outer b' (i + 1)"
        using True r(1) sw by (subst bubble_outer.simps) simp
      ultimately show ?thesis using r(3) by simp
    qed
  qed
qed

lemma bubbleSort_sorts:
  assumes "S \<noteq> []" and "length S < 2 ^ 64"
  shows "bubbleSort S = Inr (sort S)"
proof -
  have "\<exists>b'. bubble_outer S 0 = Inr b' \<and> mset b' = mset S \<and> sorted b'"
    using assms by (intro bubble_outer_spec) (auto simp: suffix_sorted_def)
  then show ?thesis
    unfolding bubbleSort_def by (auto dest: properties_for_sort)
qed

section \<open>Heap sort: correctness of the loops\<close>

lemma heapify_unfold:
  assumes "0 \<le> i" and "i < n" and "n \<le> int (length arr)" and "n \<le> 1073741823"
  shows "heapify arr n i =
    (if largest_of arr n i \<noteq> i
     then heapify (swap arr (nat i) (nat (largest_of arr n i))) n (largest_of arr n i)
     else Inr arr)"
  using assms
  by (subst heapify.simps)
     (auto simp: Let_def largest_of_def int_ok_def INT_MIN_def INT_MAX_def in_bounds_def)

lemma largest_of_cases:
  "largest_of arr n i = i \<or>
   (largest_of arr n i = 2 * i + 1 \<and> 2 * i + 1 < n) \<or>
   (largest_of arr n i = 2 * i + 2 \<and> 2 * i + 2 < n)"
  by (auto simp: largest_of_def Let_def)

lemma largest_of_ge:
  "arr ! nat i \<le> arr ! nat (largest_of arr n i)"
  "2 * i + 1 < n \<Longrightarrow> arr ! nat (2 * i + 1) \<le> arr ! nat (largest_of arr n i)"
  "2 * i + 2 < n \<Longrightarrow> arr ! nat (2 * i + 2) \<le> arr ! nat (largest_of arr n i)"
  by (auto simp: largest_of_def Let_def)

lemma nth_swap:
  "a < length v \<Longrightarrow> b < length v \<Longrightarrow>
   swap v a b ! k = (if k = b then v ! a else if k = a then v ! b else v ! k)"
  by (simp add: swap_def nth_list_update)

lemma nth_swap_int:
  assumes "0 \<le> a" "a < int (length v)" "0 \<le> b" "b < int (length v)" "0 \<le> x"
  shows "swap v (nat a) (nat b) ! nat x =
           (if x = b then v ! nat a else if x = a then v ! nat b else v ! nat x)"
  using assms by (simp add: nth_swap nat_eq_iff)

lemma heapify_spec:
  assumes "0 \<le> lo" and "lo \<le> i" and "i < n" and "n \<le> int (length arr)" and "n \<le> 1073741823"
    and "\<forall>j. lo \<le> j \<and> j < n \<and> j \<noteq> i \<longrightarrow> heap_at arr n j"
    and "\<forall>p. lo \<le> p \<and> (i = 2 * p + 1 \<or> i = 2 * p + 2) \<longrightarrow>
           (2 * i + 1 < n \<longrightarrow> arr ! nat (2 * i + 1) \<le> arr ! nat p) \<and>
           (2 * i + 2 < n \<longrightarrow> arr ! nat (2 * i + 2) \<le> arr ! nat p)"
  shows "\<exists>arr'. heapify arr n i = Inr arr' \<and> length arr' = length arr \<and> mset arr' = mset arr \<and>
           drop (nat n) arr' = drop (nat n) arr \<and> (\<forall>j. lo \<le> j \<and> j < n \<longrightarrow> heap_at arr' n j)"
  using assms
proof (induction "nat (n - i)" arbitrary: arr i rule: less_induct)
  case less
  note H1 = less.prems(6) and H2 = less.prems(7)
  have i0: "0 \<le> i" using less.prems(1,2) by simp
  let ?l = "largest_of arr n i"
  have unf: "heapify arr n i =
    (if ?l \<noteq> i then heapify (swap arr (nat i) (nat ?l)) n ?l else Inr arr)"
    using heapify_unfold [OF i0 less.prems(3,4,5)] .
  show ?case
  proof (cases "?l = i")
    case True
    have "heap_at arr n i"
      unfolding heap_at_def using largest_of_ge(2,3) [where arr=arr and i=i and n=n] True by simp
    then have "\<forall>j. lo \<le> j \<and> j < n \<longrightarrow> heap_at arr n j"
      using H1 by blast
    then show ?thesis using unf True by simp
  next
    case False
    let ?a2 = "swap arr (nat i) (nat ?l)"
    have lc: "?l = 2 * i + 1 \<or> ?l = 2 * i + 2" and ln: "?l < n"
      using largest_of_cases [of arr n i] False by auto
    have il: "i < ?l" using lc i0 by auto
    have nth2: "?a2 ! nat x = (if x = ?l then arr ! nat i else if x = i then arr ! nat ?l else arr ! nat x)"
      if "0 \<le> x" for x
      using nth_swap_int [of i arr ?l x] i0 il ln less.prems(3,4) that by simp
    have Hl: "heap_at arr n ?l"
      using H1 ln il less.prems(2) by simp
    have H1': "\<forall>j. lo \<le> j \<and> j < n \<and> j \<noteq> ?l \<longrightarrow> heap_at ?a2 n j"
    proof (intro allI impI)
      fix j
      assume j: "lo \<le> j \<and> j < n \<and> j \<noteq> ?l"
      then have j0: "0 \<le> j" using less.prems(1) by simp
      show "heap_at ?a2 n j"
      proof (cases "j = i")
        case True
        then show ?thesis
          unfolding heap_at_def using largest_of_ge [where arr=arr and i=i and n=n] i0 il
          by (auto simp: nth2)
      next
        case ji: False
        have hj: "heap_at arr n j" using H1 j ji by simp
        have c1: "2 * j + 1 \<noteq> ?l" and c2: "2 * j + 2 \<noteq> ?l" using lc ji by auto
        have p: "(2 * j + 1 = i \<or> 2 * j + 2 = i) \<longrightarrow> arr ! nat ?l \<le> arr ! nat j"
          using H2 j lc ln by auto
        show ?thesis
          unfolding heap_at_def using hj j j0 ji c1 c2 p
          by (auto simp: nth2 heap_at_def)
      qed
    qed
    have H2': "\<forall>p. lo \<le> p \<and> (?l = 2 * p + 1 \<or> ?l = 2 * p + 2) \<longrightarrow>
           (2 * ?l + 1 < n \<longrightarrow> ?a2 ! nat (2 * ?l + 1) \<le> ?a2 ! nat p) \<and>
           (2 * ?l + 2 < n \<longrightarrow> ?a2 ! nat (2 * ?l + 2) \<le> ?a2 ! nat p)"
    proof (intro allI impI)
      fix p
      assume p: "lo \<le> p \<and> (?l = 2 * p + 1 \<or> ?l = 2 * p + 2)"
      then have "p = i" using lc by auto
      then show "(2 * ?l + 1 < n \<longrightarrow> ?a2 ! nat (2 * ?l + 1) \<le> ?a2 ! nat p) \<and>
           (2 * ?l + 2 < n \<longrightarrow> ?a2 ! nat (2 * ?l + 2) \<le> ?a2 ! nat p)"
        using Hl i0 il by (auto simp: nth2 heap_at_def)
    qed
    have "\<exists>arr'. heapify ?a2 n ?l = Inr arr' \<and> length arr' = length ?a2 \<and> mset arr' = mset ?a2 \<and>
           drop (nat n) arr' = drop (nat n) ?a2 \<and> (\<forall>j. lo \<le> j \<and> j < n \<longrightarrow> heap_at arr' n j)"
    proof (rule less.hyps [OF _ less.prems(1) _ ln _ less.prems(5) H1' H2'])
      show "nat (n - ?l) < nat (n - i)" using il ln by simp
      show "lo \<le> ?l" using il less.prems(2) by simp
      show "n \<le> int (length ?a2)" using less.prems(4) by simp
    qed
    moreover have "mset ?a2 = mset arr"
      using i0 il ln less.prems(3,4) by (simp add: mset_swap_list)
    moreover have "drop (nat n) ?a2 = drop (nat n) arr"
      using i0 il ln less.prems(3) by (simp add: swap_def)
    ultimately show ?thesis using unf False by auto
  qed
qed

lemma heapSort_build_spec:
  assumes "- 1 \<le> i" and "i < n" and "n \<le> int (length arr)" and "n \<le> 1073741823"
    and "\<forall>j. i < j \<and> j < n \<longrightarrow> heap_at arr n j"
  shows "\<exists>arr'. heapSort_build arr n i = Inr arr' \<and> length arr' = length arr \<and>
           mset arr' = mset arr \<and> (\<forall>j. 0 \<le> j \<and> j < n \<longrightarrow> heap_at arr' n j)"
  using assms
proof (induction arr n i rule: heapSort_build.induct)
  case (1 arr n i)
  show ?case
  proof (cases "i \<ge> 0")
    case False
    then have "\<forall>j. 0 \<le> j \<and> j < n \<longrightarrow> heap_at arr n j"
      using "1.prems"(5) by simp
    then show ?thesis using False by (subst heapSort_build.simps) simp
  next
    case True
    have "\<exists>arr'. heapify arr n i = Inr arr' \<and> length arr' = length arr \<and> mset arr' = mset arr \<and>
           drop (nat n) arr' = drop (nat n) arr \<and> (\<forall>j. i \<le> j \<and> j < n \<longrightarrow> heap_at arr' n j)"
      using True "1.prems" by (intro heapify_spec) auto
    then obtain a1 where a1: "heapify arr n i = Inr a1" "length a1 = length arr"
      "mset a1 = mset arr" "\<forall>j. i \<le> j \<and> j < n \<longrightarrow> heap_at a1 n j"
      by auto
    have "\<exists>arr'. heapSort_build a1 n (i - 1) = Inr arr' \<and> length arr' = length a1 \<and>
           mset arr' = mset a1 \<and> (\<forall>j. 0 \<le> j \<and> j < n \<longrightarrow> heap_at arr' n j)"
      using "1.IH" [OF True a1(1)] True "1.prems"(2,3,4) a1(2,4) by simp
    moreover have "heapSort_build arr n i = heapSort_build a1 n (i - 1)"
      using True a1(1) by (subst heapSort_build.simps) simp
    ultimately show ?thesis using a1(2,3) by simp
  qed
qed

lemma heap_root_max:
  assumes "\<forall>j. 0 \<le> j \<and> j < m \<longrightarrow> heap_at arr m j"
  shows "0 \<le> k \<Longrightarrow> k < m \<Longrightarrow> arr ! nat k \<le> arr ! 0"
proof (induction "nat k" arbitrary: k rule: less_induct)
  case less
  show ?case
  proof (cases "k = 0")
    case True
    then show ?thesis by simp
  next
    case False
    define p where "p = (k - 1) div 2"
    have p: "0 \<le> p" "p < k" "k = 2 * p + 1 \<or> k = 2 * p + 2"
      using False less.prems(1) unfolding p_def by auto
    have "heap_at arr m p" using assms p less.prems(2) by simp
    then have "arr ! nat k \<le> arr ! nat p"
      using p(3) less.prems(2) by (auto simp: heap_at_def)
    moreover have "arr ! nat p \<le> arr ! 0"
      using p less.prems by (intro less.hyps) auto
    ultimately show ?thesis by simp
  qed
qed

lemma heapSort_extract_spec:
  assumes "- 1 \<le> i" and "i < int (length arr)" and "length arr \<le> 1073741823"
    and "\<forall>j. 0 \<le> j \<and> j < i + 1 \<longrightarrow> heap_at arr (i + 1) j"
    and "suffix_sorted arr (nat (i + 1))"
  shows "\<exists>arr'. heapSort_extract arr i = Inr arr' \<and> mset arr' = mset arr \<and> sorted arr'"
  using assms
proof (induction arr i rule: heapSort_extract.induct)
  case (1 arr i)
  show ?case
  proof (cases "i > 0")
    case False
    have "sorted arr"
      using "1.prems"(5) False by (intro suffix_sorted_sorted [of arr "nat (i + 1)"]) auto
    then show ?thesis using False by (subst heapSort_extract.simps) simp
  next
    case True
    let ?B = "nat i"
    let ?a2 = "swap arr 0 ?B"
    have Bl: "?B < length arr" "0 < ?B" "0 < length arr" using True "1.prems"(2) by auto
    have inb: "in_bounds arr 0 \<and> in_bounds arr i"
      using True "1.prems"(2) by (auto simp: in_bounds_def)
    have nth2: "?a2 ! k = (if k = ?B then arr ! 0 else if k = 0 then arr ! ?B else arr ! k)" for k
      using Bl by (simp add: nth_swap)
    have H1: "\<forall>j. 0 \<le> j \<and> j < i \<and> j \<noteq> 0 \<longrightarrow> heap_at ?a2 i j"
    proof (intro allI impI)
      fix j
      assume j: "0 \<le> j \<and> j < i \<and> j \<noteq> 0"
      then have "heap_at arr (i + 1) j" using "1.prems"(4) by simp
      then show "heap_at ?a2 i j"
        using j by (auto simp: heap_at_def nth2 nat_eq_iff)
    qed
    have "\<exists>arr'. heapify ?a2 i 0 = Inr arr' \<and> length arr' = length ?a2 \<and> mset arr' = mset ?a2 \<and>
           drop (nat i) arr' = drop (nat i) ?a2 \<and> (\<forall>j. 0 \<le> j \<and> j < i \<longrightarrow> heap_at arr' i j)"
    proof (rule heapify_spec [OF _ _ True _ _ H1])
      show "\<forall>p. 0 \<le> p \<and> (0 = 2 * p + 1 \<or> 0 = 2 * p + 2) \<longrightarrow>
           (2 * 0 + 1 < i \<longrightarrow> ?a2 ! nat (2 * 0 + 1) \<le> ?a2 ! nat p) \<and>
           (2 * 0 + 2 < i \<longrightarrow> ?a2 ! nat (2 * 0 + 2) \<le> ?a2 ! nat p)"
        by (intro allI impI) presburger
    qed (use "1.prems"(2,3) in auto)
    then obtain a1 where a1: "heapify ?a2 i 0 = Inr a1" "length a1 = length arr"
      "mset a1 = mset ?a2" "drop ?B a1 = drop ?B ?a2"
      "\<forall>j. 0 \<le> j \<and> j < i \<longrightarrow> heap_at a1 i j"
      by auto
    have m2: "mset ?a2 = mset arr" using Bl by (simp add: mset_swap_list)
    have top: "a1 ! ?B = arr ! 0"
      using nth_of_drop_eq [OF a1(4), of ?B] Bl a1(2) by (simp add: nth2)
    have le0: "arr ! k \<le> arr ! 0" if "k \<le> ?B" for k
      using heap_root_max [OF "1.prems"(4), of "int k"] that True by simp
    have mx: "\<forall>k \<le> ?B. a1 ! k \<le> a1 ! ?B"
    proof (intro allI impI)
      fix k
      assume k: "k \<le> ?B"
      show "a1 ! k \<le> a1 ! ?B"
      proof (cases "k = ?B")
        case True
        then show ?thesis by simp
      next
        case False
        then have "k < ?B" "k < length ?a2" using k Bl by auto
        from prefix_value_source [OF _ a1(3,4) this] a1(2)
        obtain k0 where k0: "k0 < ?B" "?a2 ! k0 = a1 ! k" by auto
        have "?a2 ! k0 \<le> arr ! 0" using k0(1) le0 [of k0] le0 [of ?B] by (simp add: nth2)
        then show ?thesis using k0(2) top by simp
      qed
    qed
    have dr: "drop (Suc ?B) a1 = drop (Suc ?B) arr"
    proof -
      have "drop (Suc ?B) a1 = drop 1 (drop ?B a1)" by simp
      also have "\<dots> = drop 1 (drop ?B ?a2)" using a1(4) by simp
      also have "\<dots> = drop (Suc ?B) ?a2" by simp
      also have "\<dots> = drop (Suc ?B) arr" using Bl by (simp add: swap_def)
      finally show ?thesis .
    qed
    have "suffix_sorted arr (Suc ?B)"
      using "1.prems"(5) True by (simp add: nat_add_distrib)
    then have R': "suffix_sorted a1 ?B"
      using a1(2) a1(3) m2 dr Bl(1) mx by (intro suffix_sorted_step [of a1 arr ?B]) auto
    have "\<exists>arr'. heapSort_extract a1 (i - 1) = Inr arr' \<and> mset arr' = mset a1 \<and> sorted arr'"
      using "1.IH" [OF True _ a1(1)] inb True "1.prems"(2,3) a1(2,5) R' by simp
    moreover have "heapSort_extract arr i = heapSort_extract a1 (i - 1)"
      using True inb a1(1) by (subst heapSort_extract.simps) simp
    ultimately show ?thesis using a1(3) m2 by simp
  qed
qed

lemma heapSort_sorts:
  assumes "length S \<le> 1073741823"
  shows "heapSort S = Inr (sort S)"
proof -
  let ?n = "int (length S)"
  have n: "to_int (length S) = ?n" using assms by (simp add: to_int_small)
  have d: "?n sdiv 2 = ?n div 2" by (cases S) (simp_all add: signed_divide_int_def)
  have "\<exists>arr'. heapSort_build S ?n (?n div 2 - 1) = Inr arr' \<and> length arr' = length S \<and>
           mset arr' = mset S \<and> (\<forall>j. 0 \<le> j \<and> j < ?n \<longrightarrow> heap_at arr' ?n j)"
    using assms by (intro heapSort_build_spec) (auto simp: heap_at_def)
  then obtain a1 where a1: "heapSort_build S ?n (?n div 2 - 1) = Inr a1" "length a1 = length S"
    "mset a1 = mset S" "\<forall>j. 0 \<le> j \<and> j < ?n \<longrightarrow> heap_at a1 ?n j"
    by auto
  have "\<exists>arr'. heapSort_extract a1 (?n - 1) = Inr arr' \<and> mset arr' = mset a1 \<and> sorted arr'"
    using assms a1(2,4) by (intro heapSort_extract_spec) (auto simp: suffix_sorted_def)
  then obtain a2 where a2: "heapSort_extract a1 (?n - 1) = Inr a2" "mset a2 = mset S" "sorted a2"
    using a1(3) by auto
  have "int_ok (?n - 1)" using assms by (simp add: int_ok_def INT_MIN_def INT_MAX_def)
  then have "heapSort S = Inr a2"
    using n d a1(1) a2(1) by (simp add: heapSort_def)
  then show ?thesis using a2(2,3) by (auto dest: properties_for_sort)
qed

section \<open>Fibonacci search: facts about the Fibonacci numbers\<close>

lemma fib_0 [simp]: "fib 0 = 0"
  by (rule fib.simps(1))

lemma fib_1 [simp]: "fib (Suc 0) = 1"
  by (rule fib.simps(2))

lemma fib_Suc_Suc: "fib (Suc (Suc k)) = fib k + fib (Suc k)"
  by (rule fib.simps(3))

lemma fib_Suc_Suc_0 [simp]: "fib (Suc (Suc 0)) = 1"
  by (simp add: fib_Suc_Suc)

lemma fib_2 [simp]: "fib 2 = 1"
  by (simp add: numeral_2_eq_2)

lemma fib_pair_eq: "fib_pair k = (fib k, fib (Suc k))"
  by (induction k) (simp_all add: fib_Suc_Suc)

lemma fib_add_2: "fib (k + 2) = fib k + fib (k + 1)"
  using fib_Suc_Suc [of k] by simp

lemma fib_add_3: "fib (k + 3) = fib (k + 1) + fib (k + 2)"
  using fib_Suc_Suc [of "Suc k"] by (simp add: eval_nat_numeral)

lemma fib_ge_0_pos: "0 \<le> fib k \<and> 0 < fib (Suc k)"
  by (induction k) (auto simp: fib_Suc_Suc)

lemma fib_ge_0: "0 \<le> fib k"
  using fib_ge_0_pos by blast

lemma fib_pos: "0 < k \<Longrightarrow> 0 < fib k"
  using fib_ge_0_pos [of "k - 1"] by simp

lemma fib_le_Suc: "fib k \<le> fib (Suc k)"
  using fib_ge_0 [of "k - 1"] fib_Suc_Suc [of "k - 1"] by (cases k) auto

lemma fib_mono: "i \<le> j \<Longrightarrow> fib i \<le> fib j"
  by (rule lift_Suc_mono_le [of fib, OF fib_le_Suc])

lemma fib_pair_46: "fib_pair 46 = (1836311903, 2971215073)"
  by (simp add: eval_nat_numeral)

lemma fib_46: "fib 46 = 1836311903"
  using fib_pair_eq [of 46] by (simp add: fib_pair_46)

lemma fib_47: "fib 47 = 2971215073"
proof -
  have "fib (Suc 46) = 2971215073"
    using fib_pair_eq [of 46] by (simp add: fib_pair_46)
  then show ?thesis by simp
qed

lemma fib_le_46: "k \<le> 46 \<Longrightarrow> fib k \<le> 1836311903"
  using fib_mono [of k 46] by (simp add: fib_46)

lemma fib_int_ok: "k \<le> 46 \<Longrightarrow> int_ok (fib k)"
  using fib_le_46 [of k] fib_ge_0 [of k] by (simp add: int_ok_def INT_MIN_def INT_MAX_def)

section \<open>Fibonacci search: the generation loop\<close>

lemma fib_gen_exit:
  "n \<le> fibM \<Longrightarrow> fib_gen n fibMMm2 fibMMm1 fibM = Some (Inr (fibMMm2, fibMMm1, fibM))"
  by (subst fib_gen.simps) simp

lemma fib_gen_step:
  assumes "fib (k + 2) < n" and "k \<le> 43"
  shows "fib_gen n (fib k) (fib (k + 1)) (fib (k + 2)) =
         fib_gen n (fib (k + 1)) (fib (k + 2)) (fib (k + 3))"
proof -
  have "int_ok (fib (k + 3))" using assms(2) by (intro fib_int_ok) simp
  then have "wrap32 (fib (k + 1) + fib (k + 2)) = fib (k + 3)"
    by (simp add: wrap32_id fib_add_3)
  then show ?thesis
    using assms(1) by (subst fib_gen.simps) (simp add: Let_def)
qed

lemma fib_gen_result:
  assumes "n \<le> fib 46" and "k \<le> 44"
  shows "\<exists>j. k \<le> j \<and> j \<le> 44 \<and>
           fib_gen n (fib k) (fib (k + 1)) (fib (k + 2)) = Some (Inr (fib j, fib (j + 1), fib (j + 2))) \<and>
           n \<le> fib (j + 2) \<and> (j = k \<or> fib (j + 1) < n)"
  using assms(2)
proof (induction "44 - k" arbitrary: k)
  case 0
  then have k: "k = 44" by simp
  show ?case
    using assms(1) unfolding k by (intro exI [of _ 44]) (simp add: fib_gen_exit)
next
  case (Suc d)
  then have k: "k \<le> 43" by simp
  show ?case
  proof (cases "n \<le> fib (k + 2)")
    case True
    then show ?thesis using k by (intro exI [of _ k]) (simp add: fib_gen_exit)
  next
    case False
    then have lt: "fib (k + 2) < n" by simp
    have st: "fib_gen n (fib k) (fib (k + 1)) (fib (k + 2)) =
         fib_gen n (fib (k + 1)) (fib (k + 2)) (fib (k + 3))"
      using lt k by (rule fib_gen_step)
    have "\<exists>j. k + 1 \<le> j \<and> j \<le> 44 \<and>
           fib_gen n (fib (k + 1)) (fib (k + 1 + 1)) (fib (k + 1 + 2)) =
             Some (Inr (fib j, fib (j + 1), fib (j + 2))) \<and>
           n \<le> fib (j + 2) \<and> (j = k + 1 \<or> fib (j + 1) < n)"
      using Suc.hyps(2) k by (intro Suc.hyps(1)) auto
    then obtain j where j: "k + 1 \<le> j" "j \<le> 44"
      "fib_gen n (fib (k + 1)) (fib (k + 2)) (fib (k + 3)) = Some (Inr (fib j, fib (j + 1), fib (j + 2)))"
      "n \<le> fib (j + 2)" "j = k + 1 \<or> fib (j + 1) < n"
      by (auto simp: numeral_3_eq_3 numeral_2_eq_2)
    have "fib (j + 1) < n" using j(5) lt by auto
    then show ?thesis using j st by (intro exI [of _ j]) simp
  qed
qed

section \<open>Fibonacci search: the search loop\<close>

lemma last_check_result:
  assumes "- 1 \<le> offset" and "offset + 1 \<le> INT_MAX" and "n \<le> int (length arr)"
  shows "\<exists>r. last_check arr target n m1 offset = Inr r \<and>
           (r = - 1 \<or> (0 \<le> r \<and> r < n \<and> arr ! nat r = target))"
proof -
  have "wrap32 (offset + 1) = offset + 1"
    using assms(1,2) by (intro wrap32_id) (simp add: int_ok_def INT_MIN_def)
  then show ?thesis
    using assms(1,3) by (auto simp: last_check_def in_bounds_def)
qed

lemma fib_loop_exit:
  "fibM \<le> 1 \<Longrightarrow>
   fib_loop arr target n m2 m1 fibM offset = Some (last_check arr target n m1 offset)"
  by (subst fib_loop.simps) simp

lemma fib_pred: "1 \<le> j \<Longrightarrow> fib (j + 1) - fib j = fib (j - 1)"
  using fib_add_2 [of "j - 1"] by simp

lemma fib_pred2: "2 \<le> j \<Longrightarrow> fib j - fib (j - 1) = fib (j - 2)"
  using fib_add_2 [of "j - 2"] by (simp add: numeral_2_eq_2 Suc_diff_Suc)

lemma fib_loop_step:
  assumes "1 \<le> j" and "j \<le> 44" and "- 1 \<le> offset" and "offset + fib (j + 2) \<le> INT_MAX"
    and "1 \<le> n" and "n \<le> int (length arr)" and "int_ok n"
  shows "fib_loop arr target n (fib j) (fib (j + 1)) (fib (j + 2)) offset =
     (let i = min (offset + fib j) (n - 1) in
      if arr ! nat i < target
        then fib_loop arr target n (fib (j - 1)) (fib j) (fib (j + 1)) i
      else if arr ! nat i > target
        then fib_loop arr target n (fib j - fib (j - 1)) (fib (j - 1)) (fib j) offset
      else Some (Inr i))"
proof -
  have p: "0 < fib j" "0 < fib (j + 1)" using assms(1) by (auto intro: fib_pos)
  have gt: "1 < fib (j + 2)" using p by (simp add: fib_Suc_Suc)
  have le: "fib j \<le> fib (j + 2)" "fib (j - 1) \<le> fib j" "0 \<le> fib (j - 1)"
    by (auto intro: fib_mono fib_ge_0)
  have ok1: "int_ok (offset + fib j)"
    using assms(3,4) p le by (simp add: int_ok_def INT_MIN_def INT_MAX_def)
  have ok2: "int_ok (n - 1)"
    using assms(5,7) by (simp add: int_ok_def INT_MIN_def INT_MAX_def)
  have inb: "in_bounds arr (min (offset + fib j) (n - 1))"
    using assms(3,5,6) p by (simp add: in_bounds_def)
  have ok3: "int_ok (fib (j - 1))" using assms(2) by (intro fib_int_ok) simp
  have ok4: "int_ok (fib j - fib (j - 1))"
    using le fib_le_46 [of j] assms(2) by (simp add: int_ok_def INT_MIN_def INT_MAX_def)
  have pr: "fib (j + 1) - fib j = fib (j - 1)" using assms(1) by (rule fib_pred)
  have w1: "wrap32 (offset + fib j) = offset + fib j" using ok1 by (rule wrap32_id)
  have w2: "wrap32 (n - 1) = n - 1" using ok2 by (rule wrap32_id)
  have w3: "wrap32 (fib (j + 1) - fib j) = fib (j - 1)"
    unfolding pr using ok3 by (rule wrap32_id)
  have w4: "wrap32 (fib j - fib (j - 1)) = fib j - fib (j - 1)" using ok4 by (rule wrap32_id)
  show ?thesis
    apply (subst fib_loop.simps)
    apply (simp only: gt w1 w2 inb w3 w4 Let_def if_True if_False simp_thms)
    done
qed

lemma fib_loop_safe:
  assumes "j \<le> 44" and "- 1 \<le> offset" and "offset + fib (j + 2) \<le> INT_MAX"
    and "1 \<le> j \<longrightarrow> 1 \<le> n" and "n \<le> int (length arr)" and "int_ok n"
  shows "\<exists>r. fib_loop arr target n (fib j) (fib (j + 1)) (fib (j + 2)) offset = Some (Inr r) \<and>
           (r = - 1 \<or> (0 \<le> r \<and> r < n \<and> arr ! nat r = target))"
  using assms(1-4)
proof (induction j arbitrary: offset rule: less_induct)
  case (less j)
  show ?case
  proof (cases "j = 0")
    case True
    have "offset + 1 \<le> INT_MAX" using less.prems(3) True by simp
    then show ?thesis
      using True last_check_result [OF less.prems(2) _ assms(5), of target 1]
      by (simp add: fib_loop_exit)
  next
    case False
    then have j1: "1 \<le> j" and n1: "1 \<le> n" using less.prems(4) by auto
    let ?i = "min (offset + fib j) (n - 1)"
    have p: "0 < fib j" using j1 by (auto intro: fib_pos)
    have i: "0 \<le> ?i" "?i < n" using less.prems(2) n1 p by auto
    have f2: "fib (j + 2) = fib j + fib (j + 1)" by (rule fib_add_2)
    note st = fib_loop_step [OF j1 less.prems(1,2,3) n1 assms(5,6), of target]
    consider (lt) "arr ! nat ?i < target" | (gt) "arr ! nat ?i > target" | (eq) "arr ! nat ?i = target"
      by linarith
    then show ?thesis
    proof cases
      case lt
      have e: "j - 1 + 1 = j" "j - 1 + 2 = j + 1" using j1 by auto
      have "\<exists>r. fib_loop arr target n (fib (j - 1)) (fib (j - 1 + 1)) (fib (j - 1 + 2)) ?i = Some (Inr r) \<and>
           (r = - 1 \<or> (0 \<le> r \<and> r < n \<and> arr ! nat r = target))"
      proof (rule less.IH)
        show "j - 1 < j" using j1 by simp
        show "j - 1 \<le> 44" using less.prems(1) by simp
        show "- 1 \<le> ?i" using i(1) by simp
        show "?i + fib (j - 1 + 2) \<le> INT_MAX"
          unfolding e using f2 less.prems(3) by linarith
        show "1 \<le> j - 1 \<longrightarrow> 1 \<le> n" using n1 by simp
      qed
      then have ih: "\<exists>r. fib_loop arr target n (fib (j - 1)) (fib j) (fib (j + 1)) ?i = Some (Inr r) \<and>
           (r = - 1 \<or> (0 \<le> r \<and> r < n \<and> arr ! nat r = target))"
        unfolding e .
      have "fib_loop arr target n (fib j) (fib (j + 1)) (fib (j + 2)) offset =
            fib_loop arr target n (fib (j - 1)) (fib j) (fib (j + 1)) ?i"
        using st by (simp only: Let_def lt if_True)
      then show ?thesis using ih by simp
    next
      case gt
      then have nlt: "\<not> arr ! nat ?i < target" by simp
      have stg: "fib_loop arr target n (fib j) (fib (j + 1)) (fib (j + 2)) offset =
            fib_loop arr target n (fib j - fib (j - 1)) (fib (j - 1)) (fib j) offset"
        using st by (simp only: Let_def nlt gt if_True if_False)
      show ?thesis
      proof (cases "j = 1")
        case True
        have "fib_loop arr target n 1 0 1 offset = Some (Inr (- 1))"
          by (simp add: fib_loop_exit last_check_def)
        then show ?thesis using stg True by simp
      next
        case False
        then have j2: "2 \<le> j" using j1 by simp
        have e: "j - 2 + 1 = j - 1" "j - 2 + 2 = j" using j2 by auto
        have "\<exists>r. fib_loop arr target n (fib (j - 2)) (fib (j - 2 + 1)) (fib (j - 2 + 2)) offset = Some (Inr r) \<and>
           (r = - 1 \<or> (0 \<le> r \<and> r < n \<and> arr ! nat r = target))"
        proof (rule less.IH)
          show "j - 2 < j" using j2 by simp
          show "j - 2 \<le> 44" using less.prems(1) by simp
          show "- 1 \<le> offset" using less.prems(2) .
          have "fib j \<le> fib (j + 2)" by (intro fib_mono) simp
          then show "offset + fib (j - 2 + 2) \<le> INT_MAX"
            unfolding e using less.prems(3) by linarith
          show "1 \<le> j - 2 \<longrightarrow> 1 \<le> n" using n1 by simp
        qed
        then have ih: "\<exists>r. fib_loop arr target n (fib (j - 2)) (fib (j - 1)) (fib j) offset = Some (Inr r) \<and>
           (r = - 1 \<or> (0 \<le> r \<and> r < n \<and> arr ! nat r = target))"
          unfolding e .
        show ?thesis unfolding stg fib_pred2 [OF j2] using ih .
      qed
    next
      case eq
      then have nlt: "\<not> arr ! nat ?i < target" and ngt: "\<not> arr ! nat ?i > target" by auto
      have "fib_loop arr target n (fib j) (fib (j + 1)) (fib (j + 2)) offset = Some (Inr ?i)"
        using st by (simp only: Let_def nlt ngt if_False)
      then show ?thesis using eq i by simp
    qed
  qed
qed

lemma fib_loop_finds:
  assumes "sorted arr" and "n = int (length arr)" and "int_ok n"
  shows "j \<le> 44 \<Longrightarrow> - 1 \<le> offset \<Longrightarrow> offset + fib (j + 2) \<le> INT_MAX \<Longrightarrow>
     (1 \<le> j \<longrightarrow> 1 \<le> n) \<Longrightarrow> 0 \<le> t \<Longrightarrow>
     (\<forall>k. 0 \<le> k \<and> k < n \<and> arr ! nat k = target \<longrightarrow>
          offset < k \<and> k + t \<le> offset + fib (j + 2)) \<Longrightarrow>
     (\<exists>k. 0 \<le> k \<and> k < n \<and> arr ! nat k = target) \<Longrightarrow>
     fib_loop arr target n (fib j) (fib (j + 1)) (fib (j + 2)) offset \<noteq> Some (Inr (- 1))"
proof (induction j arbitrary: offset t rule: less_induct)
  case (less j)
  note inv = less.prems(6)
  obtain k0 where k0: "0 \<le> k0" "k0 < n" "arr ! nat k0 = target"
    using less.prems(7) by blast
  show ?case
  proof (cases "j = 0")
    case True
    have "offset < k0 \<and> k0 + t \<le> offset + 1" using inv k0 True by simp
    then have k: "offset + 1 = k0" using less.prems(5) by linarith
    have "int_ok (offset + 1)"
      using k k0 assms(3) by (simp add: int_ok_def INT_MIN_def)
    moreover have "in_bounds arr (offset + 1)"
      using k k0 assms(2) by (simp add: in_bounds_def)
    ultimately have "last_check arr target n 1 offset = Inr (offset + 1)"
      using k k0 by (simp add: last_check_def wrap32_id)
    then show ?thesis using True k k0(1) by (simp add: fib_loop_exit)
  next
    case False
    then have j1: "1 \<le> j" and n1: "1 \<le> n" using less.prems(4) by auto
    let ?i = "min (offset + fib j) (n - 1)"
    have p: "0 < fib j" using j1 by (auto intro: fib_pos)
    have i: "0 \<le> ?i" "?i < n" using less.prems(2) n1 p by auto
    have il: "nat ?i < length arr" using i(1) i(2) unfolding assms(2) by linarith
    have kl: "nat k < length arr" if "0 \<le> k \<and> k < n \<and> arr ! nat k = target" for k
      using that unfolding assms(2) by linarith
    have f2: "fib (j + 2) = fib j + fib (j + 1)" by (rule fib_add_2)
    have n_le: "n \<le> int (length arr)" using assms(2) by simp
    note st = fib_loop_step [OF j1 less.prems(1,2,3) n1 n_le assms(3), of target]
    consider (lt) "arr ! nat ?i < target" | (gt) "arr ! nat ?i > target" | (eq) "arr ! nat ?i = target"
      by linarith
    then show ?thesis
    proof cases
      case lt
      have e: "j - 1 + 1 = j" "j - 1 + 2 = j + 1" using j1 by auto
      have above: "?i < k" if "0 \<le> k \<and> k < n \<and> arr ! nat k = target" for k
      proof (rule ccontr)
        assume "\<not> ?i < k"
        then have "nat k \<le> nat ?i" by simp
        then have "arr ! nat k \<le> arr ! nat ?i"
          using assms(1) il by (intro sorted_nth_mono)
        then show False using lt that by simp
      qed
      have "fib_loop arr target n (fib (j - 1)) (fib (j - 1 + 1)) (fib (j - 1 + 2)) ?i \<noteq> Some (Inr (- 1))"
      proof (rule less.IH [where t = t])
        show "j - 1 < j" using j1 by simp
        show "j - 1 \<le> 44" using less.prems(1) by simp
        show "- 1 \<le> ?i" using i(1) by simp
        show "?i + fib (j - 1 + 2) \<le> INT_MAX"
          unfolding e using f2 less.prems(3) by linarith
        show "1 \<le> j - 1 \<longrightarrow> 1 \<le> n" using n1 by simp
        show "0 \<le> t" using less.prems(5) .
        show "\<forall>k. 0 \<le> k \<and> k < n \<and> arr ! nat k = target \<longrightarrow>
                ?i < k \<and> k + t \<le> ?i + fib (j - 1 + 2)"
          unfolding e
        proof (intro allI impI)
          fix k
          assume k: "0 \<le> k \<and> k < n \<and> arr ! nat k = target"
          have "?i < k" using above k by blast
          moreover have "k + t \<le> offset + fib (j + 2)" using inv k by blast
          ultimately show "?i < k \<and> k + t \<le> ?i + fib (j + 1)"
            using k f2 by linarith
        qed
        show "\<exists>k. 0 \<le> k \<and> k < n \<and> arr ! nat k = target" using less.prems(7) .
      qed
      then have ih: "fib_loop arr target n (fib (j - 1)) (fib j) (fib (j + 1)) ?i \<noteq> Some (Inr (- 1))"
        unfolding e .
      have "fib_loop arr target n (fib j) (fib (j + 1)) (fib (j + 2)) offset =
            fib_loop arr target n (fib (j - 1)) (fib j) (fib (j + 1)) ?i"
        using st by (simp only: Let_def lt if_True)
      then show ?thesis using ih by simp
    next
      case gt
      then have nlt: "\<not> arr ! nat ?i < target" by simp
      have stg: "fib_loop arr target n (fib j) (fib (j + 1)) (fib (j + 2)) offset =
            fib_loop arr target n (fib j - fib (j - 1)) (fib (j - 1)) (fib j) offset"
        using st by (simp only: Let_def nlt gt if_True if_False)
      have below: "k + 1 \<le> offset + fib j" if "0 \<le> k \<and> k < n \<and> arr ! nat k = target" for k
      proof (rule ccontr)
        assume "\<not> k + 1 \<le> offset + fib j"
        then have "?i \<le> k" by simp
        then have "nat ?i \<le> nat k" by simp
        then have "arr ! nat ?i \<le> arr ! nat k"
          using assms(1) kl [OF that] by (intro sorted_nth_mono)
        then show False using gt that by simp
      qed
      show ?thesis
      proof (cases "j = 1")
        case True
        have "k0 + 1 \<le> offset + 1" using below [of k0] k0 True by simp
        moreover have "offset < k0" using inv k0 by blast
        ultimately show ?thesis by simp
      next
        case False
        then have j2: "2 \<le> j" using j1 by simp
        have e: "j - 2 + 1 = j - 1" "j - 2 + 2 = j" using j2 by auto
        have "fib_loop arr target n (fib (j - 2)) (fib (j - 2 + 1)) (fib (j - 2 + 2)) offset \<noteq> Some (Inr (- 1))"
        proof (rule less.IH [where t = 1])
          show "j - 2 < j" using j2 by simp
          show "j - 2 \<le> 44" using less.prems(1) by simp
          show "- 1 \<le> offset" using less.prems(2) .
          have "fib j \<le> fib (j + 2)" by (intro fib_mono) simp
          then show "offset + fib (j - 2 + 2) \<le> INT_MAX"
            unfolding e using less.prems(3) by linarith
          show "1 \<le> j - 2 \<longrightarrow> 1 \<le> n" using n1 by simp
          show "(0::int) \<le> 1" by simp
          show "\<forall>k. 0 \<le> k \<and> k < n \<and> arr ! nat k = target \<longrightarrow>
                  offset < k \<and> k + 1 \<le> offset + fib (j - 2 + 2)"
            unfolding e using inv below by blast
          show "\<exists>k. 0 \<le> k \<and> k < n \<and> arr ! nat k = target" using less.prems(7) .
        qed
        then have ih: "fib_loop arr target n (fib (j - 2)) (fib (j - 1)) (fib j) offset \<noteq> Some (Inr (- 1))"
          unfolding e .
        show ?thesis unfolding stg fib_pred2 [OF j2] using ih .
      qed
    next
      case eq
      then have nlt: "\<not> arr ! nat ?i < target" and ngt: "\<not> arr ! nat ?i > target" by auto
      have "fib_loop arr target n (fib j) (fib (j + 1)) (fib (j + 2)) offset = Some (Inr ?i)"
        using st by (simp only: Let_def nlt ngt if_False)
      moreover have "?i \<noteq> - 1" using i(1) by linarith
      ultimately show ?thesis by simp
    qed
  qed
qed

section \<open>Fibonacci search: the whole function\<close>

lemma to_int_le: "to_int s \<le> int s"
proof -
  have "(int s + 2 ^ 31) mod 2 ^ 32 \<le> int s + 2 ^ 31"
    by (rule zmod_le_nonneg_dividend) simp
  then show ?thesis by (simp add: to_int_def)
qed

lemma to_int_ok: "int_ok (to_int s)"
proof -
  have "0 \<le> (int s + 2 ^ 31) mod 2 ^ 32" "(int s + 2 ^ 31) mod 2 ^ 32 < 2 ^ 32"
    by simp_all
  then show ?thesis by (simp add: to_int_def int_ok_def INT_MIN_def INT_MAX_def)
qed

lemma fibonacciSearch_unfold:
  "fibonacciSearch arr target =
     (case fib_gen (to_int (length arr)) (fib 0) (fib (0 + 1)) (fib (0 + 2)) of
        None \<Rightarrow> None
      | Some (Inl e) \<Rightarrow> Some (Inl e)
      | Some (Inr (fibMMm2, fibMMm1, fibM)) \<Rightarrow>
          fib_loop arr target (to_int (length arr)) fibMMm2 fibMMm1 fibM (- 1))"
  by (simp add: fibonacciSearch_def Let_def wrap32_def)

lemma fibonacciSearch_loop:
  assumes "to_int (length arr) \<le> fib 46"
  shows "\<exists>j \<le> 44. fibonacciSearch arr target =
            fib_loop arr target (to_int (length arr)) (fib j) (fib (j + 1)) (fib (j + 2)) (- 1) \<and>
          to_int (length arr) \<le> fib (j + 2) \<and> (1 \<le> j \<longrightarrow> 1 \<le> to_int (length arr))"
proof -
  obtain j where j: "j \<le> 44"
    "fib_gen (to_int (length arr)) (fib 0) (fib (0 + 1)) (fib (0 + 2)) =
       Some (Inr (fib j, fib (j + 1), fib (j + 2)))"
    "to_int (length arr) \<le> fib (j + 2)" "j = 0 \<or> fib (j + 1) < to_int (length arr)"
    using fib_gen_result [OF assms, of 0] by auto
  have "1 \<le> j \<longrightarrow> 1 \<le> to_int (length arr)"
    using j(4) fib_ge_0 [of "j + 1"] by auto
  then show ?thesis
    using j(1,3) unfolding fibonacciSearch_unfold j(2) by auto
qed

lemma fibonacciSearch_returns:
  assumes "length arr \<le> 1836311903"
  shows "\<exists>r. fibonacciSearch arr target = Some (Inr r) \<and>
           (r = - 1 \<or> (0 \<le> r \<and> r < int (length arr) \<and> arr ! nat r = target))"
proof -
  let ?n = "to_int (length arr)"
  have n: "?n = int (length arr)" using assms by (simp add: to_int_small)
  then have le: "?n \<le> fib 46" using assms by (simp add: fib_46)
  obtain j where j: "j \<le> 44"
    "fibonacciSearch arr target = fib_loop arr target ?n (fib j) (fib (j + 1)) (fib (j + 2)) (- 1)"
    "1 \<le> j \<longrightarrow> 1 \<le> ?n"
    using fibonacciSearch_loop [OF le] by blast
  have "fib (j + 2) \<le> 1836311903" using j(1) by (intro fib_le_46) simp
  then have b: "- 1 + fib (j + 2) \<le> INT_MAX" by (simp add: INT_MAX_def)
  have "\<exists>r. fib_loop arr target ?n (fib j) (fib (j + 1)) (fib (j + 2)) (- 1) = Some (Inr r) \<and>
           (r = - 1 \<or> (0 \<le> r \<and> r < ?n \<and> arr ! nat r = target))"
    using j(1) b j(3) to_int_le to_int_ok by (intro fib_loop_safe) auto
  then show ?thesis unfolding j(2) n .
qed

lemma fibonacciSearch_not_missed:
  assumes "sorted arr" and "target \<in> set arr" and "length arr \<le> 1836311903"
  shows "fibonacciSearch arr target \<noteq> Some (Inr (- 1))"
proof -
  let ?n = "to_int (length arr)"
  have n: "?n = int (length arr)" using assms(3) by (simp add: to_int_small)
  then have le: "?n \<le> fib 46" using assms(3) by (simp add: fib_46)
  obtain j where j: "j \<le> 44"
    "fibonacciSearch arr target = fib_loop arr target ?n (fib j) (fib (j + 1)) (fib (j + 2)) (- 1)"
    "?n \<le> fib (j + 2)" "1 \<le> j \<longrightarrow> 1 \<le> ?n"
    using fibonacciSearch_loop [OF le] by blast
  have "fib (j + 2) \<le> 1836311903" using j(1) by (intro fib_le_46) simp
  then have b: "- 1 + fib (j + 2) \<le> INT_MAX" by (simp add: INT_MAX_def)
  obtain i where i: "i < length arr" "arr ! i = target"
    using assms(2) by (auto simp: in_set_conv_nth)
  have ex: "\<exists>k. 0 \<le> k \<and> k < ?n \<and> arr ! nat k = target"
    using i n by (intro exI [of _ "int i"]) simp
  have inv: "\<forall>k. 0 \<le> k \<and> k < ?n \<and> arr ! nat k = target \<longrightarrow>
          - 1 < k \<and> k + 0 \<le> - 1 + fib (j + 2)"
    using j(3) by auto
  have "fib_loop arr target ?n (fib j) (fib (j + 1)) (fib (j + 2)) (- 1) \<noteq> Some (Inr (- 1))"
    using assms(1) n to_int_ok j(1) _ b j(4) _ inv ex
    by (rule fib_loop_finds) simp_all
  then show ?thesis unfolding j(2) .
qed

section \<open>Bubble sort: the statements of the specification\<close>

text \<open>
  On every vector that has at least one element, \<^verbatim>\<open>bubbleSort\<close> returns the sorted
  permutation of its input. (A \<^verbatim>\<open>std::vector\<close> always has fewer than \<open>2\<^sup>6\<^sup>4\<close> elements.)
\<close>

lemma bubbleSort_sorted_permutation:
  assumes "S \<noteq> []" and "length S < 2 ^ 64"
  shows "\<exists>S'. bubbleSort S = Inr S' \<and> (\<forall>i. Suc i < length S' \<longrightarrow> S' ! i \<le> S' ! Suc i) \<and>
           mset S' = mset S \<and> length S' = length S"
  using bubbleSort_sorts [OF assms] by (simp flip: sorted_iff_nth_Suc)

lemma bubbleSort_empty_example: "bubbleSort [] = Inl OutOfBounds"
  by code_simp

text \<open>
  Claim C1: for every finite sequence of integers \<open>S\<close>, \<^verbatim>\<open>bubbleSort(S)\<close> leaves a
  non-decreasing permutation of \<open>S\<close>. The program does so on every non-empty vector
  (\<open>bubbleSort_sorted_permutation\<close>), but not on the empty one: there
  \<^verbatim>\<open>beads.size() - 1\<close> wraps around to \<open>2\<^sup>6\<^sup>4 - 1\<close>, the outer and the inner loop are both
  entered, and the first comparison reads \<^verbatim>\<open>beads[0]\<close> and \<^verbatim>\<open>beads[1]\<close> of a vector
  that has no elements.
\<close>

theorem bubbleSort_empty_out_of_bounds:
  "bubbleSort [] = Inl OutOfBounds \<and>
   \<not> (\<exists>S'. bubbleSort [] = Inr S' \<and> sorted S' \<and> mset S' = mset [])"
  using bubbleSort_empty_example by simp

text \<open>
  Claim C5: \<^verbatim>\<open>bubbleSort\<close> on an empty or a single-element sequence is a no-op and reads no
  index out of bounds; the pass bound must not underflow on the empty sequence. The
  single-element half holds. On the empty vector the pass bound does underflow: the
  bound of the outer loop is \<open>- 1\<close> in \<^verbatim>\<open>size_t\<close>, that is \<open>2\<^sup>6\<^sup>4 - 1\<close>, and the first
  step of the inner loop reads out of bounds.
\<close>

theorem bubbleSort_degenerate_sizes:
  "bubbleSort [x] = Inr [x] \<and>
   vsize [] - 1 = (- 1 :: size_t) \<and>
   bubble_inner [] 0 0 False = Inl OutOfBounds"
proof -
  have "bubbleSort [x] = Inr [x]"
    by (simp add: bubbleSort_def bubble_outer.simps vsize_def)
  moreover have "vsize [] - 1 = (- 1 :: size_t)"
    by (simp add: vsize_def)
  moreover have "bubble_inner [] 0 0 False = Inl OutOfBounds"
    by code_simp
  ultimately show ?thesis by simp
qed

section \<open>Heap sort: the statements of the specification\<close>

text \<open>
  The vector of \<open>2\<^sup>3\<^sup>0\<close> elements that is \<open>0\<close> everywhere but for a last element \<open>1\<close>:
  the first call \<^verbatim>\<open>heapify(arr, n, n / 2 - 1)\<close> swaps the last element up and recurses
  on index \<open>2\<^sup>3\<^sup>0 - 1\<close>, where \<^verbatim>\<open>2 * i + 2\<close> is \<open>2\<^sup>3\<^sup>1\<close> and does not fit an \<^verbatim>\<open>int\<close>.
\<close>

lemma heapSort_overflow_example: "heapSort (replicate 1073741823 0 @ [1]) = Inl Overflow"
  apply (simp add: heapSort_def to_int_def heapSort_build.simps)
  apply (subst heapify.simps)
  apply (simp add: int_ok_def INT_MIN_def INT_MAX_def in_bounds_def nth_append)
  apply (subst heapify.simps)
  apply (simp add: int_ok_def INT_MIN_def INT_MAX_def in_bounds_def nth_append)
  done

text \<open>
  Claim C2, as amended: for every finite sequence \<open>S\<close> of at most \<open>2\<^sup>3\<^sup>0 - 1 = 1073741823\<close>
  integers, \<^verbatim>\<open>heapSort(S)\<close> leaves a sequence that is non-decreasing at every adjacent
  pair and is a permutation of \<open>S\<close> (same multiset of values, same length).
\<close>

theorem heapSort_sorted_permutation:
  assumes "length S \<le> 1073741823"
  shows "\<exists>S'. heapSort S = Inr S' \<and> (\<forall>i. Suc i < length S' \<longrightarrow> S' ! i \<le> S' ! Suc i) \<and>
           mset S' = mset S \<and> length S' = length S"
  using heapSort_sorts [OF assms] by (simp flip: sorted_iff_nth_Suc)

theorem heapSort_sorted_permutation_witness:
  "length [12, 3, 5, 7, 19, 1 :: int] \<le> 1073741823 \<and>
   (\<exists>S'. heapSort [12, 3, 5, 7, 19, 1] = Inr S' \<and>
      (\<forall>i. Suc i < length S' \<longrightarrow> S' ! i \<le> S' ! Suc i) \<and>
      mset S' = mset [12, 3, 5, 7, 19, 1] \<and> length S' = length [12, 3, 5, 7, 19, 1 :: int])"
  using heapSort_sorted_permutation [of "[12, 3, 5, 7, 19, 1]"] by simp

text \<open>
  Claim C2 as stated, for every finite sequence, fails: \<^verbatim>\<open>heapify\<close> computes the child
  indices \<^verbatim>\<open>2 * i + 1\<close> and \<^verbatim>\<open>2 * i + 2\<close> in \<^verbatim>\<open>int\<close>, and on the vector of \<open>2\<^sup>3\<^sup>0\<close>
  elements above the second of them overflows: \<^verbatim>\<open>heapSort\<close> returns no sorted sequence.
\<close>

theorem heapSort_large_counterexample:
  "heapSort (replicate 1073741823 0 @ [1]) = Inl Overflow \<and>
   \<not> (\<exists>S'. heapSort (replicate 1073741823 0 @ [1]) = Inr S' \<and> sorted S' \<and>
          mset S' = mset (replicate 1073741823 0 @ [1]))"
  using heapSort_overflow_example by simp

section \<open>Idempotence of the two sorts\<close>

text \<open>
  Claim C8, as amended: sorting the result of a sort again leaves it unchanged, for
  \<^verbatim>\<open>bubbleSort\<close> on every non-empty sequence and for \<^verbatim>\<open>heapSort\<close> on every sequence of
  at most \<open>2\<^sup>3\<^sup>0 - 1\<close> elements.
\<close>

theorem sort_idempotent:
  "(S \<noteq> [] \<and> length S < 2 ^ 64 \<longrightarrow>
      (\<exists>S'. bubbleSort S = Inr S' \<and> bubbleSort S' = Inr S')) \<and>
   (length S \<le> 1073741823 \<longrightarrow>
      (\<exists>S'. heapSort S = Inr S' \<and> heapSort S' = Inr S'))"
proof (intro conjI impI)
  have ss: "sort (sort S) = sort S" by (simp add: sorted_sort_id)
  have ls: "length (sort S) = length S" by simp
  {
    assume a: "S \<noteq> [] \<and> length S < 2 ^ 64"
    then have "length (sort S) \<noteq> 0" using ls by simp
    then have "sort S \<noteq> []" by fastforce
    moreover have "length (sort S) < 2 ^ 64" using a ls by simp
    ultimately have "bubbleSort (sort S) = Inr (sort S)"
      using bubbleSort_sorts [of "sort S"] ss by simp
    moreover have "bubbleSort S = Inr (sort S)"
      using a by (intro bubbleSort_sorts) auto
    ultimately show "\<exists>S'. bubbleSort S = Inr S' \<and> bubbleSort S' = Inr S'"
      by blast
  }
  {
    assume a: "length S \<le> 1073741823"
    then have "heapSort (sort S) = Inr (sort S)"
      using heapSort_sorts [of "sort S"] ss ls by simp
    moreover have "heapSort S = Inr (sort S)"
      using a by (rule heapSort_sorts)
    ultimately show "\<exists>S'. heapSort S = Inr S' \<and> heapSort S' = Inr S'"
      by blast
  }
qed

theorem sort_idempotent_witness:
  "([5, 2, 9, 1, 5, 6 :: int] \<noteq> [] \<and> length [5, 2, 9, 1, 5, 6 :: int] < 2 ^ 64) \<and>
   (\<exists>S'. bubbleSort [5, 2, 9, 1, 5, 6] = Inr S' \<and> bubbleSort S' = Inr S') \<and>
   length [5, 2, 9, 1, 5, 6 :: int] \<le> 1073741823 \<and>
   (\<exists>S'. heapSort [5, 2, 9, 1, 5, 6] = Inr S' \<and> heapSort S' = Inr S')"
  using sort_idempotent [of "[5, 2, 9, 1, 5, 6]"] by simp

text \<open>
  Claim C8 as stated, for every finite sequence and both sorts, fails: \<^verbatim>\<open>heapSort\<close>
  gives no result on the vector of \<open>2\<^sup>3\<^sup>0\<close> elements above, and \<^verbatim>\<open>bubbleSort\<close> gives none
  on the empty vector.
\<close>

theorem sort_idempotent_counterexample:
  "\<not> (\<exists>S'. heapSort (replicate 1073741823 0 @ [1]) = Inr S' \<and> heapSort S' = Inr S') \<and>
   \<not> (\<exists>S'. bubbleSort [] = Inr S' \<and> bubbleSort S' = Inr S')"
  using heapSort_overflow_example bubbleSort_empty_example by simp

section \<open>Fibonacci search: the statements of the specification\<close>

text \<open>
  On a vector of \<open>1836311904 = F(46) + 1\<close> elements the generation loop needs the
  Fibonacci number after \<open>F(46)\<close>, \<open>F(47) = 2971215073\<close>, which does not fit an
  \<^verbatim>\<open>int\<close>. The sum \<^verbatim>\<open>fibMMm2 + fibMMm1\<close> wraps around to \<open>-1323752223\<close>, and after eight
  more rounds the loop exits with three values that are not Fibonacci numbers.
\<close>

lemma fib_gen_wrapped_round:
  "fib_gen 1836311904 0 1 1 = fib_gen 1836311904 1134903170 1836311903 (- 1323752223)"
  by (simp add: fib_gen.simps wrap32_def Let_def)

lemma fib_gen_wrapped_exit:
  "fib_gen 1836311904 0 1 1 = Some (Inr (1776683621, 368225352, 2144908973))"
  by (simp add: fib_gen.simps wrap32_def Let_def)

lemma not_fib_2144908973: "fib k \<noteq> 2144908973"
proof (cases "k \<le> 46")
  case True
  then show ?thesis using fib_le_46 [of k] by simp
next
  case False
  then have "fib 47 \<le> fib k" by (intro fib_mono) simp
  then show ?thesis by (simp add: fib_47)
qed

text \<open>
  The search for \<open>1\<close> in \<open>1836311904\<close> zeros then probes the indices \<open>1776683620\<close> and
  \<open>368225351\<close>, and on the third round \<^verbatim>\<open>min(offset + fibMMm2, n - 1)\<close> is
  \<open>-741600055\<close>: \<^verbatim>\<open>arr[i]\<close> is read outside the vector.
\<close>

lemma fib_loop_wrapped_round_1:
  "fib_loop (replicate 1836311904 0) 1 1836311904 1776683621 368225352 2144908973 (- 1) =
   fib_loop (replicate 1836311904 0) 1 1836311904 (- 1408458269) 1776683621 368225352 1776683620"
  by (subst fib_loop.simps) (simp add: wrap32_def Let_def in_bounds_def)

lemma fib_loop_wrapped_round_2:
  "fib_loop (replicate 1836311904 0) 1 1836311904 (- 1408458269) 1776683621 368225352 1776683620 =
   fib_loop (replicate 1836311904 0) 1 1836311904 (- 1109825406) (- 1408458269) 1776683621 368225351"
  by (subst fib_loop.simps) (simp add: wrap32_def Let_def in_bounds_def)

lemma fib_loop_wrapped_round_3:
  "fib_loop (replicate 1836311904 0) 1 1836311904 (- 1109825406) (- 1408458269) 1776683621 368225351 =
   Some (Inl OutOfBounds)"
  by (subst fib_loop.simps) (simp add: wrap32_def Let_def in_bounds_def)

lemma fibonacciSearch_zeros_start:
  "fibonacciSearch (replicate 1836311904 0) 1 =
   fib_loop (replicate 1836311904 0) 1 1836311904 1776683621 368225352 2144908973 (- 1)"
  by (simp add: fibonacciSearch_def to_int_def Let_def fib_gen_wrapped_exit wrap32_def)

lemma fibonacciSearch_zeros_out_of_bounds:
  "fibonacciSearch (replicate 1836311904 0) 1 = Some (Inl OutOfBounds)"
  by (simp only: fibonacciSearch_zeros_start fib_loop_wrapped_round_1 fib_loop_wrapped_round_2
      fib_loop_wrapped_round_3)

text \<open>
  The same three probes are made when the last of the \<open>1836311904\<close> elements is \<open>1\<close>, so
  that the target occurs.
\<close>

lemma fibonacciSearch_present_out_of_bounds:
  "fibonacciSearch (replicate 1836311903 0 @ [1]) 1 = Some (Inl OutOfBounds)"
  by (simp add: fibonacciSearch_def to_int_def fib_gen.simps fib_loop.simps wrap32_def Let_def
      in_bounds_def nth_append)

text \<open>
  A vector of \<open>2\<^sup>3\<^sup>1\<close> elements has a size that \<^verbatim>\<open>int n\<close> does not hold: \<open>n\<close> is
  \<open>-2\<^sup>3\<^sup>1\<close>, neither loop is entered and the final check fails its bound test.
\<close>

lemma fibonacciSearch_negative_size:
  "fibonacciSearch (replicate 2147483648 0) 0 = Some (Inr (- 1))"
  by (simp add: fibonacciSearch_def to_int_def fib_gen.simps fib_loop.simps wrap32_def Let_def
      last_check_def)

text \<open>
  Claim C3, as amended: for every sequence \<open>S\<close> of at most \<open>F(46) = 1836311903\<close> elements
  sorted in non-decreasing order and every value \<open>v\<close> that occurs in \<open>S\<close>,
  \<^verbatim>\<open>fibonacciSearch(S, v)\<close> returns an index \<open>i\<close> with \<open>0 \<le> i < |S|\<close> and \<open>S[i] = v\<close>.
\<close>

theorem fibonacciSearch_finds_present:
  assumes "sorted S" and "v \<in> set S" and "length S \<le> 1836311903"
  shows "\<exists>i. fibonacciSearch S v = Some (Inr i) \<and> 0 \<le> i \<and> i < int (length S) \<and> S ! nat i = v"
  using fibonacciSearch_returns [OF assms(3), of v] fibonacciSearch_not_missed [OF assms]
  by auto

theorem fibonacciSearch_finds_present_witness:
  "sorted [10, 22, 35, 40, 45, 50, 80, 82, 85, 90, 100 :: int] \<and>
   85 \<in> set [10, 22, 35, 40, 45, 50, 80, 82, 85, 90, 100 :: int] \<and>
   length [10, 22, 35, 40, 45, 50, 80, 82, 85, 90, 100 :: int] \<le> 1836311903 \<and>
   (\<exists>i. fibonacciSearch [10, 22, 35, 40, 45, 50, 80, 82, 85, 90, 100] 85 = Some (Inr i) \<and>
        0 \<le> i \<and> i < int (length [10, 22, 35, 40, 45, 50, 80, 82, 85, 90, 100 :: int]) \<and>
        [10, 22, 35, 40, 45, 50, 80, 82, 85, 90, 100 :: int] ! nat i = 85)"
  using fibonacciSearch_finds_present [of "[10, 22, 35, 40, 45, 50, 80, 82, 85, 90, 100]" 85]
  by simp

text \<open>
  Claim C3 as stated, for every sorted sequence, fails. On the sorted vector of
  \<open>1836311903\<close> zeros followed by one \<open>1\<close>, the search for \<open>1\<close> reads \<^verbatim>\<open>arr[-741600055]\<close>
  and returns no index. On the sorted vector of \<open>2\<^sup>3\<^sup>1\<close> zeros the search for \<open>0\<close> returns
  \<open>-1\<close>.
\<close>

theorem fibonacciSearch_finds_present_counterexample:
  "sorted (replicate 1836311903 (0 :: int) @ [1]) \<and>
   (1 :: int) \<in> set (replicate 1836311903 0 @ [1]) \<and>
   fibonacciSearch (replicate 1836311903 0 @ [1]) 1 = Some (Inl OutOfBounds) \<and>
   \<not> (\<exists>i. fibonacciSearch (replicate 1836311903 0 @ [1]) 1 = Some (Inr i) \<and> 0 \<le> i \<and>
          i < int (length (replicate 1836311903 (0 :: int) @ [1])) \<and>
          (replicate 1836311903 (0 :: int) @ [1]) ! nat i = 1) \<and>
   sorted (replicate 2147483648 (0 :: int)) \<and>
   (0 :: int) \<in> set (replicate 2147483648 0) \<and>
   fibonacciSearch (replicate 2147483648 0) 0 = Some (Inr (- 1))"
  using fibonacciSearch_present_out_of_bounds fibonacciSearch_negative_size
  by (simp add: sorted_append)

text \<open>
  Claim C4, as amended: for every sequence \<open>S\<close> of at most \<open>F(46) = 1836311903\<close> elements
  sorted in non-decreasing order and every value \<open>v\<close> that does not occur in \<open>S\<close>,
  \<^verbatim>\<open>fibonacciSearch(S, v)\<close> returns \<open>-1\<close>; in particular it returns \<open>-1\<close> on the empty
  sequence for every \<open>v\<close>.
\<close>

theorem fibonacciSearch_absent:
  assumes "sorted S" and "v \<notin> set S" and "length S \<le> 1836311903"
  shows "fibonacciSearch S v = Some (Inr (- 1)) \<and> fibonacciSearch [] v = Some (Inr (- 1))"
proof
  obtain r where r: "fibonacciSearch S v = Some (Inr r)"
    "r = - 1 \<or> (0 \<le> r \<and> r < int (length S) \<and> S ! nat r = v)"
    using fibonacciSearch_returns [OF assms(3), of v] by blast
  have "\<not> (0 \<le> r \<and> r < int (length S) \<and> S ! nat r = v)"
  proof
    assume a: "0 \<le> r \<and> r < int (length S) \<and> S ! nat r = v"
    then have "nat r < length S" by linarith
    then have "S ! nat r \<in> set S" by (rule nth_mem)
    then show False using a assms(2) by simp
  qed
  then show "fibonacciSearch S v = Some (Inr (- 1))" using r by blast
  show "fibonacciSearch [] v = Some (Inr (- 1))"
    using fibonacciSearch_returns [of "[]" v] by auto
qed

theorem fibonacciSearch_absent_witness:
  "sorted [10, 22, 35, 40, 45, 50, 80, 82, 85, 90, 100 :: int] \<and>
   99 \<notin> set [10, 22, 35, 40, 45, 50, 80, 82, 85, 90, 100 :: int] \<and>
   length [10, 22, 35, 40, 45, 50, 80, 82, 85, 90, 100 :: int] \<le> 1836311903 \<and>
   fibonacciSearch [10, 22, 35, 40, 45, 50, 80, 82, 85, 90, 100] 99 = Some (Inr (- 1)) \<and>
   fibonacciSearch [] 99 = Some (Inr (- 1))"
  using fibonacciSearch_absent [of "[10, 22, 35, 40, 45, 50, 80, 82, 85, 90, 100]" 99]
  by simp

text \<open>
  Claim C4 as stated, for every sorted sequence, fails on the sorted vector of
  \<open>1836311904\<close> zeros: the search for \<open>1\<close>, which does not occur, reads
  \<^verbatim>\<open>arr[-741600055]\<close> and returns no \<open>-1\<close>.
\<close>

theorem fibonacciSearch_absent_counterexample:
  "sorted (replicate 1836311904 (0 :: int)) \<and>
   (1 :: int) \<notin> set (replicate 1836311904 0) \<and>
   fibonacciSearch (replicate 1836311904 0) 1 \<noteq> Some (Inr (- 1))"
  using fibonacciSearch_zeros_out_of_bounds by simp

text \<open>
  Claim C6, as amended: for every sequence \<open>S\<close> of at most \<open>F(46) = 1836311903\<close> elements,
  of any such size (\<open>0\<close> and \<open>1\<close> included) and sorted or not, and every target \<open>v\<close>,
  \<^verbatim>\<open>fibonacciSearch(S, v)\<close> never reads an index outside \<open>[0, |S| - 1]\<close>. Every read of
  \<^verbatim>\<open>arr\<close> in the model, in the loop and in the check after it, ends the run with
  \<open>OutOfBounds\<close> when its index is outside the vector: the run returns a value instead.
  On the empty vector, where every index is outside, nothing is probed; and the check
  after the loop reads \<^verbatim>\<open>arr[offset + 1]\<close> only inside the vector, whatever
  \<^verbatim>\<open>fibMMm1\<close> is, as long as \<open>offset\<close> is at least \<open>-1\<close> and \<open>offset + 1\<close> fits an
  \<^verbatim>\<open>int\<close>.
\<close>

theorem fibonacciSearch_reads_in_bounds:
  assumes "length S \<le> 1836311903"
  shows "fibonacciSearch S v \<noteq> Some (Inl OutOfBounds) \<and>
         (\<exists>r. fibonacciSearch S v = Some (Inr r)) \<and>
         fibonacciSearch [] v = Some (Inr (- 1)) \<and>
         (- 1 \<le> offset \<and> offset < INT_MAX \<longrightarrow>
            last_check S v (to_int (length S)) fibMMm1 offset \<noteq> Inl OutOfBounds)"
proof (intro conjI impI)
  show r: "\<exists>r. fibonacciSearch S v = Some (Inr r)"
    using fibonacciSearch_returns [OF assms, of v] by blast
  then show "fibonacciSearch S v \<noteq> Some (Inl OutOfBounds)" by auto
  show "fibonacciSearch [] v = Some (Inr (- 1))"
    using fibonacciSearch_returns [of "[]" v] by auto
  assume "- 1 \<le> offset \<and> offset < INT_MAX"
  then have "\<exists>r. last_check S v (to_int (length S)) fibMMm1 offset = Inr r \<and>
           (r = - 1 \<or> (0 \<le> r \<and> r < to_int (length S) \<and> S ! nat r = v))"
    using to_int_le [of "length S"] by (intro last_check_result) auto
  then show "last_check S v (to_int (length S)) fibMMm1 offset \<noteq> Inl OutOfBounds"
    by auto
qed

theorem fibonacciSearch_reads_in_bounds_witness:
  "length [40, 10, 35, 22 :: int] \<le> 1836311903 \<and>
   fibonacciSearch [40, 10, 35, 22] 7 \<noteq> Some (Inl OutOfBounds) \<and>
   (\<exists>r. fibonacciSearch [40, 10, 35, 22] 7 = Some (Inr r)) \<and>
   fibonacciSearch [] 7 = Some (Inr (- 1)) \<and>
   (- 1 \<le> (3 :: int) \<and> (3 :: int) < INT_MAX) \<and>
   last_check [40, 10, 35, 22] 7 (to_int (length [40, 10, 35, 22 :: int])) 1 3 \<noteq> Inl OutOfBounds"
  using fibonacciSearch_reads_in_bounds [of "[40, 10, 35, 22]" 7 3 1]
  by (simp add: INT_MAX_def)

text \<open>
  Claim C6 as stated, for a sequence of any size, fails on the vector of \<open>1836311904\<close>
  zeros searched for \<open>1\<close>: on the third round of the search loop the probe index
  \<^verbatim>\<open>min(offset + fibMMm2, n - 1)\<close> is \<open>-741600055\<close>, and \<^verbatim>\<open>arr[i]\<close> is read there.
\<close>

theorem fibonacciSearch_reads_in_bounds_counterexample:
  "fibonacciSearch (replicate 1836311904 0) 1 =
     fib_loop (replicate 1836311904 0) 1 1836311904 (- 1109825406) (- 1408458269) 1776683621
       368225351 \<and>
   min (wrap32 (368225351 + - 1109825406)) (wrap32 (1836311904 - 1)) = - 741600055 \<and>
   \<not> in_bounds (replicate 1836311904 0) (- 741600055) \<and>
   fibonacciSearch (replicate 1836311904 0) 1 = Some (Inl OutOfBounds)"
  using fibonacciSearch_zeros_out_of_bounds
  by (simp add: fibonacciSearch_zeros_start fib_loop_wrapped_round_1 fib_loop_wrapped_round_2
      fib_loop_wrapped_round_3 wrap32_def in_bounds_def)

text \<open>
  Claim C7, as amended: for every input sequence of length \<open>N\<close> with
  \<open>1 \<le> N \<le> F(46) = 1836311903\<close>, the generation loop exits, and then \<^verbatim>\<open>fibM\<close> holds the
  smallest Fibonacci number \<open>F(k)\<close> that is at least \<open>N\<close>, with \<open>k \<ge> 2\<close>, and
  \<^verbatim>\<open>fibMMm1\<close> and \<^verbatim>\<open>fibMMm2\<close> hold \<open>F(k - 1)\<close> and \<open>F(k - 2)\<close>.
\<close>

theorem fib_gen_smallest:
  assumes "S \<noteq> []" and "length S \<le> 1836311903"
  shows "\<exists>k\<ge>2. fib_gen (to_int (length S)) 0 1 1 = Some (Inr (fib (k - 2), fib (k - 1), fib k)) \<and>
           int (length S) \<le> fib k \<and> (\<forall>i. int (length S) \<le> fib i \<longrightarrow> fib k \<le> fib i)"
proof -
  let ?n = "int (length S)"
  have n: "to_int (length S) = ?n" using assms(2) by (simp add: to_int_small)
  have n1: "1 \<le> ?n" using assms(1) by (cases S) auto
  have "?n \<le> fib 46" using assms(2) by (simp add: fib_46)
  then obtain j where j:
    "fib_gen ?n (fib 0) (fib (0 + 1)) (fib (0 + 2)) = Some (Inr (fib j, fib (j + 1), fib (j + 2)))"
    "?n \<le> fib (j + 2)" "j = 0 \<or> fib (j + 1) < ?n"
    using fib_gen_result [of ?n 0] by auto
  have least: "fib (j + 2) \<le> fib i" if "?n \<le> fib i" for i
  proof (cases "j = 0")
    case True
    then show ?thesis using that n1 by simp
  next
    case False
    then have "fib (j + 1) < fib i" using j(3) that by simp
    then have "\<not> i \<le> j + 1" using fib_mono [of i "j + 1"] by linarith
    then show ?thesis by (intro fib_mono) simp
  qed
  show ?thesis
    using j(1,2) least unfolding n by (intro exI [of _ "j + 2"]) simp
qed

theorem fib_gen_smallest_witness:
  "[10, 22, 35, 40, 45, 50, 80, 82, 85, 90, 100 :: int] \<noteq> [] \<and>
   length [10, 22, 35, 40, 45, 50, 80, 82, 85, 90, 100 :: int] \<le> 1836311903 \<and>
   (\<exists>k\<ge>2. fib_gen (to_int (length [10, 22, 35, 40, 45, 50, 80, 82, 85, 90, 100 :: int])) 0 1 1 =
             Some (Inr (fib (k - 2), fib (k - 1), fib k)) \<and>
          int (length [10, 22, 35, 40, 45, 50, 80, 82, 85, 90, 100 :: int]) \<le> fib k \<and>
          (\<forall>i. int (length [10, 22, 35, 40, 45, 50, 80, 82, 85, 90, 100 :: int]) \<le> fib i \<longrightarrow>
               fib k \<le> fib i))"
  using fib_gen_smallest [of "[10, 22, 35, 40, 45, 50, 80, 82, 85, 90, 100]"]
  by simp

text \<open>
  Claim C7 as stated, for every length, fails at \<open>N = 0\<close>: the loop is not entered and
  \<^verbatim>\<open>fibM\<close> is \<open>1\<close>, but the smallest Fibonacci number that is at least \<open>0\<close> is \<open>F(0) = 0\<close>,
  the value the program itself starts \<^verbatim>\<open>fibMMm2\<close> with. For \<open>N = 1836311904\<close> the loop
  exits with \<^verbatim>\<open>fibM = 2144908973\<close>, which is no Fibonacci number.
\<close>

theorem fib_gen_smallest_counterexample:
  "fib_gen (to_int (length ([] :: int list))) 0 1 1 = Some (Inr (0, 1, 1)) \<and>
   int (length ([] :: int list)) \<le> fib 0 \<and> fib 0 < 1 \<and>
   fib_gen (to_int (length (replicate 1836311904 (0 :: int)))) 0 1 1 =
     Some (Inr (1776683621, 368225352, 2144908973)) \<and>
   (\<forall>k. fib k \<noteq> 2144908973)"
  using fib_gen_wrapped_exit not_fib_2144908973
  by (simp add: to_int_def fib_gen.simps)

text \<open>
  Claim C9, as amended: for every sequence \<open>S\<close> of at most \<open>F(46) = 1836311903\<close> elements
  and every target \<open>v\<close>, with no assumption of sortedness, \<^verbatim>\<open>fibonacciSearch(S, v)\<close>
  returns a value, and this value is either \<open>-1\<close> or an index in \<open>[0, |S|)\<close>, so that
  \<open>-1\<close> is never a valid index.
\<close>

theorem fibonacciSearch_result_range:
  assumes "length S \<le> 1836311903"
  shows "\<exists>r. fibonacciSearch S v = Some (Inr r) \<and> (r = - 1 \<or> (0 \<le> r \<and> r < int (length S)))"
  using fibonacciSearch_returns [OF assms, of v] by blast

theorem fibonacciSearch_result_range_witness:
  "length [40, 10, 35, 22 :: int] \<le> 1836311903 \<and>
   (\<exists>r. fibonacciSearch [40, 10, 35, 22] 35 = Some (Inr r) \<and>
        (r = - 1 \<or> (0 \<le> r \<and> r < int (length [40, 10, 35, 22 :: int])))) \<and>
   fibonacciSearch [40, 10, 35, 22] 35 = Some (Inr 2)"
proof -
  have "fibonacciSearch [40, 10, 35, 22] 35 = Some (Inr 2)"
    by code_simp
  then show ?thesis
    using fibonacciSearch_result_range [of "[40, 10, 35, 22]" 35] by simp
qed

text \<open>
  Claim C9 as stated, for every sequence, fails on the vector of \<open>1836311904\<close> zeros
  searched for \<open>1\<close>: the run ends at the read of \<^verbatim>\<open>arr[-741600055]\<close> and returns neither
  \<open>-1\<close> nor an index.
\<close>

theorem fibonacciSearch_result_range_counterexample:
  "\<not> (\<exists>r. fibonacciSearch (replicate 1836311904 0) 1 = Some (Inr r) \<and>
          (r = - 1 \<or> (0 \<le> r \<and> r < int (length (replicate 1836311904 (0 :: int))))))"
  using fibonacciSearch_zeros_out_of_bounds by simp

text \<open>
  Claim C10, as amended: \<^verbatim>\<open>fibonacciSearch\<close> terminates on every sequence of at most
  \<open>F(46) = 1836311903\<close> elements and every target. There the generation loop ends
  because \<^verbatim>\<open>fibM\<close> grows strictly through the Fibonacci numbers until it reaches \<open>n\<close>, and
  the search loop ends because \<^verbatim>\<open>fibM\<close> steps down through the Fibonacci numbers on
  both branches; the function returns a value.
\<close>

theorem fibonacciSearch_terminates:
  assumes "length S \<le> 1836311903"
  shows "(\<exists>j \<le> 44. fib_gen (to_int (length S)) 0 1 1 =
                   Some (Inr (fib j, fib (j + 1), fib (j + 2)))) \<and>
         (\<exists>r. fibonacciSearch S v = Some (Inr r))"
proof
  have n: "to_int (length S) = int (length S)" using assms by (simp add: to_int_small)
  have "int (length S) \<le> fib 46" using assms by (simp add: fib_46)
  then show "\<exists>j \<le> 44. fib_gen (to_int (length S)) 0 1 1 =
                   Some (Inr (fib j, fib (j + 1), fib (j + 2)))"
    unfolding n using fib_gen_result [of "int (length S)" 0] by auto
  show "\<exists>r. fibonacciSearch S v = Some (Inr r)"
    using fibonacciSearch_returns [OF assms, of v] by blast
qed

theorem fibonacciSearch_terminates_witness:
  "length [10, 22, 35, 40, 45, 50, 80, 82, 85, 90, 100 :: int] \<le> 1836311903 \<and>
   (\<exists>j \<le> 44. fib_gen (to_int (length [10, 22, 35, 40, 45, 50, 80, 82, 85, 90, 100 :: int])) 0 1 1 =
                Some (Inr (fib j, fib (j + 1), fib (j + 2)))) \<and>
   (\<exists>r. fibonacciSearch [10, 22, 35, 40, 45, 50, 80, 82, 85, 90, 100] 99 = Some (Inr r))"
  using fibonacciSearch_terminates [of "[10, 22, 35, 40, 45, 50, 80, 82, 85, 90, 100]" 99]
  by simp

text \<open>
  Claim C10 as stated, for every sequence, fails on the vector of \<open>1836311904\<close> zeros
  searched for \<open>1\<close>. In the generation loop \<^verbatim>\<open>fibM\<close> does not increase strictly towards
  \<open>n\<close>: the round after \<open>fibM = 1836311903\<close> leaves \<open>fibM = -1323752223\<close>. In the search
  loop \<^verbatim>\<open>fibM\<close> does not decrease on the less-than branch: the second round takes it
  from \<open>368225352\<close> to \<open>1776683621\<close>. And the function does not return: the third round
  reads \<^verbatim>\<open>arr[-741600055]\<close>.
\<close>

theorem fibonacciSearch_terminates_counterexample:
  "fib_gen 1836311904 0 1 1 = fib_gen 1836311904 1134903170 1836311903 (- 1323752223) \<and>
   (- 1323752223 :: int) < 1836311903 \<and>
   fib_loop (replicate 1836311904 0) 1 1836311904 (- 1408458269) 1776683621 368225352 1776683620 =
   fib_loop (replicate 1836311904 0) 1 1836311904 (- 1109825406) (- 1408458269) 1776683621 368225351 \<and>
   (368225352 :: int) < 1776683621 \<and>
   fibonacciSearch (replicate 1836311904 0) 1 = Some (Inl OutOfBounds) \<and>
   \<not> (\<exists>r. fibonacciSearch (replicate 1836311904 0) 1 = Some (Inr r))"
  using fib_gen_wrapped_round fib_loop_wrapped_round_2 fibonacciSearch_zeros_out_of_bounds
  by simp

end
